theory Spec2Isabelle
  imports Main "HOL-Library.Countable" "HOL-Library.List_Lexorder" "HOL-Library.Multiset"
begin

section \<open>Python values\<close>

text \<open>
  A Python \<open>str\<close> is a sequence of Unicode code points; a code point is a natural
  number.  String literals of the source are written \<open>lit ''...''\<close>.
\<close>

type_synonym pystr = "nat list"

definition lit :: "string \<Rightarrow> pystr" where
  "lit s = map of_char s"

text \<open>\<open>old in s\<close> for two strings: \<open>old\<close> occurs in \<open>s\<close> as a contiguous substring.\<close>

fun str_contains :: "pystr \<Rightarrow> pystr \<Rightarrow> bool" where
  "str_contains old [] = (old = [])"
| "str_contains old (c # cs) = (take (length old) (c # cs) = old \<or> str_contains old cs)"

section \<open>html.escape\<close>

text \<open>
  \<open>s.replace(old, new)\<close> for a one-character \<open>old\<close>: every occurrence of the
  character is replaced by \<open>new\<close>.
\<close>

definition replace_char :: "nat \<Rightarrow> pystr \<Rightarrow> pystr \<Rightarrow> pystr" where
  "replace_char old new s = concat (map (\<lambda>c. if c = old then new else [c]) s)"

text \<open>
  \<open>html.escape(s)\<close> of the Python standard library with its default \<open>quote=True\<close>,
  the only way the source calls it: five replacements in this order, the ampersand
  first.
\<close>

definition escape :: "pystr \<Rightarrow> pystr" where
  "escape s =
     replace_char 39 (lit ''&#x27;'')
       (replace_char 34 (lit ''&quot;'')
         (replace_char 62 (lit ''&gt;'')
           (replace_char 60 (lit ''&lt;'')
             (replace_char 38 (lit ''&amp;'') s))))"

text \<open>The code points of ampersand, less-than, greater-than, double quote and apostrophe.\<close>

definition html_special :: "nat set" where
  "html_special = {38, 60, 62, 34, 39}"

section \<open>Exceptions\<close>

text \<open>
  The exceptions the modelled code can raise.  A computation that may raise returns
  \<open>exn + 'a\<close>, with \<open>Inl\<close> for the exception; \<open>bind_exn\<close> sequences two such
  computations, the first exception ending the run.
\<close>

datatype exn =
  AttributeError | TypeError | KeyError | UnicodeEncodeError | UnicodeDecodeError

definition bind_exn :: "exn + 'a \<Rightarrow> ('a \<Rightarrow> exn + 'b) \<Rightarrow> exn + 'b" where
  "bind_exn m f = (case m of Inl e \<Rightarrow> Inl e | Inr x \<Rightarrow> f x)"

fun mapM_exn :: "('a \<Rightarrow> exn + 'b) \<Rightarrow> 'a list \<Rightarrow> exn + 'b list" where
  "mapM_exn f [] = Inr []"
| "mapM_exn f (x # xs) =
     (case f x of Inl e \<Rightarrow> Inl e
      | Inr y \<Rightarrow> (case mapM_exn f xs of Inl e \<Rightarrow> Inl e | Inr ys \<Rightarrow> Inr (y # ys)))"

fun foldM_exn :: "('a \<Rightarrow> 's \<Rightarrow> exn + 's) \<Rightarrow> 'a list \<Rightarrow> 's \<Rightarrow> exn + 's" where
  "foldM_exn f [] st = Inr st"
| "foldM_exn f (x # xs) st =
     (case f x st of Inl e \<Rightarrow> Inl e | Inr st' \<Rightarrow> foldM_exn f xs st')"

section \<open>JSON values as Python objects\<close>

text \<open>
  What \<open>json.load\<close> returns: \<open>None\<close>, a \<open>bool\<close>, an \<open>int\<close>, a \<open>float\<close>, a \<open>str\<close>,
  a \<open>list\<close> or a \<open>dict\<close> with string keys.  A dict is an association list with
  distinct keys, read with \<open>map_of\<close>.  A number with a fraction or an exponent is a
  \<open>float\<close>: a rational value, or an infinity (the literal is too large, or is one
  of the tokens \<open>Infinity\<close> and \<open>-Infinity\<close>, which \<open>json.load\<close> reads although they
  are not JSON).  \<open>json.load\<close> reads the token \<open>NaN\<close> as well; a file with that
  token has no value here.  The one place where it would matter is the sort of the
  posts: a NaN is not ordered with any number, and for keys that \<open><\<close> does not
  order the result of \<open>list.sort\<close> is not defined by Python, it depends on the
  sorting algorithm of the interpreter.
\<close>

datatype pyfloat = NegInf | Finite rat | PosInf

datatype json =
  JNull | JBool bool | JInt int | JFloat pyfloat | JStr pystr | JArr "json list"
  | JObj "(pystr \<times> json) list"

text \<open>Truth value testing (\<open>if x\<close>, \<open>not x\<close>).\<close>

fun truthy :: "json \<Rightarrow> bool" where
  "truthy JNull = False"
| "truthy (JBool b) = b"
| "truthy (JInt i) = (i \<noteq> 0)"
| "truthy (JFloat f) = (f \<noteq> Finite 0)"
| "truthy (JStr s) = (s \<noteq> [])"
| "truthy (JArr xs) = (xs \<noteq> [])"
| "truthy (JObj kvs) = (kvs \<noteq> [])"

text \<open>\<open>x.get(k, d)\<close>: only a dict has the method.\<close>

fun py_get :: "json \<Rightarrow> pystr \<Rightarrow> json \<Rightarrow> exn + json" where
  "py_get (JObj kvs) k d = Inr (case map_of kvs k of None \<Rightarrow> d | Some v \<Rightarrow> v)"
| "py_get _ k d = Inl AttributeError"

text \<open>
  \<open>for x in v\<close>: the elements of a list, the keys of a dict, the characters of a
  string; nothing else is iterable.
\<close>

fun py_iter :: "json \<Rightarrow> exn + json list" where
  "py_iter (JArr xs) = Inr xs"
| "py_iter (JObj kvs) = Inr (map (\<lambda>kv. JStr (fst kv)) kvs)"
| "py_iter (JStr s) = Inr (map (\<lambda>c. JStr [c]) s)"
| "py_iter _ = Inl TypeError"

text \<open>
  \<open>k in d\<close> for a string \<open>k\<close>: a key of a dict, an element of a list, a substring of
  a string.
\<close>

fun py_in :: "pystr \<Rightarrow> json \<Rightarrow> exn + bool" where
  "py_in k (JObj kvs) = Inr (map_of kvs k \<noteq> None)"
| "py_in k (JArr xs) = Inr (JStr k \<in> set xs)"
| "py_in k (JStr s) = Inr (str_contains k s)"
| "py_in k _ = Inl TypeError"

text \<open>\<open>d[k]\<close> for a string \<open>k\<close>: defined on a dict that has the key.\<close>

fun py_getitem :: "json \<Rightarrow> pystr \<Rightarrow> exn + json" where
  "py_getitem (JObj kvs) k = (case map_of kvs k of None \<Rightarrow> Inl KeyError | Some v \<Rightarrow> Inr v)"
| "py_getitem _ k = Inl TypeError"

section \<open>Comparison of values\<close>

text \<open>
  Numbers compare by value, whatever their type: a \<open>bool\<close> is the integer 0 or 1,
  and an \<open>int\<close> and a \<open>float\<close> are compared exactly.
\<close>

fun float_lt :: "pyfloat \<Rightarrow> pyfloat \<Rightarrow> bool" where
  "float_lt NegInf y = (y \<noteq> NegInf)"
| "float_lt (Finite a) NegInf = False"
| "float_lt (Finite a) (Finite b) = (a < b)"
| "float_lt (Finite a) PosInf = True"
| "float_lt PosInf y = False"

fun as_number :: "json \<Rightarrow> pyfloat option" where
  "as_number (JBool b) = Some (Finite (if b then 1 else 0))"
| "as_number (JInt i) = Some (Finite (of_int i))"
| "as_number (JFloat f) = Some f"
| "as_number _ = None"

text \<open>
  \<open>a == b\<close>: lists are equal when their elements are, dicts when they have the same
  keys with equal values.  It never raises.
\<close>

fun py_eq :: "json \<Rightarrow> json \<Rightarrow> bool" where
  "py_eq (JArr xs) (JArr ys) = list_all2 py_eq xs ys"
| "py_eq (JObj kvs) (JObj kvs') =
     (set (map fst kvs) = set (map fst kvs')
      \<and> list_all (\<lambda>(k, v). case map_of kvs' k of None \<Rightarrow> False | Some v' \<Rightarrow> py_eq v v') kvs)"
| "py_eq a b =
     (case (as_number a, as_number b) of
        (Some x, Some y) \<Rightarrow> x = y
      | _ \<Rightarrow> a = b)"

text \<open>
  \<open>a < b\<close>: defined between two numbers, between two strings (code point by code
  point) and between two lists, which are compared at the first position where
  their elements are not equal, a proper prefix being the smaller; everything else,
  also \<open>None\<close> with \<open>None\<close> and a dict with a dict, raises \<open>TypeError\<close>.
\<close>

fun py_lt :: "json \<Rightarrow> json \<Rightarrow> exn + bool"
  and py_lt_list :: "json list \<Rightarrow> json list \<Rightarrow> exn + bool" where
  "py_lt (JStr s) (JStr t) = Inr (s < t)"
| "py_lt (JArr xs) (JArr ys) = py_lt_list xs ys"
| "py_lt a b =
     (case (as_number a, as_number b) of
        (Some x, Some y) \<Rightarrow> Inr (float_lt x y)
      | _ \<Rightarrow> Inl TypeError)"
| "py_lt_list [] ys = Inr (ys \<noteq> [])"
| "py_lt_list (x # xs) [] = Inr False"
| "py_lt_list (x # xs) (y # ys) = (if py_eq x y then py_lt_list xs ys else py_lt x y)"

text \<open>
  \<open>list.sort(key=..., reverse=True)\<close>.  It is a stable sort that compares the keys
  with \<open><\<close> only, and an exception of a comparison ends it.  With \<open>reverse=True\<close>
  the list is reversed, sorted and reversed again, so that equal keys keep their
  order.  The sort is written as an insertion sort.  The choice of the algorithm
  does not show in the result: a sort that returns has found every two neighbours
  of its result in order, by comparing them or through a chain of comparisons
  from the one to the other, and two keys joined by such a chain compare; so do,
  then, any two keys of the list.  So every such sort raises \<open>TypeError\<close> exactly
  when two of the keys do not compare (for fewer than two keys nothing is
  compared), and returns the one stable descending order otherwise.
\<close>

fun insort_lt :: "('a \<Rightarrow> json) \<Rightarrow> 'a \<Rightarrow> 'a list \<Rightarrow> exn + 'a list" where
  "insort_lt key x [] = Inr [x]"
| "insort_lt key x (y # ys) =
     (case py_lt (key y) (key x) of
        Inl e \<Rightarrow> Inl e
      | Inr True \<Rightarrow> (case insort_lt key x ys of Inl e \<Rightarrow> Inl e | Inr zs \<Rightarrow> Inr (y # zs))
      | Inr False \<Rightarrow> Inr (x # y # ys))"

fun sort_lt :: "('a \<Rightarrow> json) \<Rightarrow> 'a list \<Rightarrow> exn + 'a list" where
  "sort_lt key [] = Inr []"
| "sort_lt key (x # xs) =
     (case sort_lt key xs of Inl e \<Rightarrow> Inl e | Inr ys \<Rightarrow> insort_lt key x ys)"

definition py_sort_reverse :: "('a \<Rightarrow> json) \<Rightarrow> 'a list \<Rightarrow> exn + 'a list" where
  "py_sort_reverse key xs =
     (case sort_lt key (rev xs) of Inl e \<Rightarrow> Inl e | Inr ys \<Rightarrow> Inr (rev ys))"

section \<open>decode_facebook_text\<close>

text \<open>\<open>text.encode('latin-1')\<close>: one byte per code point, which must be below 256.\<close>

definition encode_latin1 :: "pystr \<Rightarrow> exn + nat list" where
  "encode_latin1 s = (if list_all (\<lambda>c. c < 256) s then Inr s else Inl UnicodeEncodeError)"

text \<open>
  \<open>bytes.decode('utf-8')\<close>, strict: the shortest encoding only, no surrogates, nothing
  above U+10FFFF.  \<open>utf8_second b b1\<close> is the range of the second byte \<open>b1\<close> after the
  lead byte \<open>b\<close>; \<open>utf8_cont\<close> is a continuation byte.
\<close>

definition utf8_cont :: "nat \<Rightarrow> bool" where
  "utf8_cont b = (128 \<le> b \<and> b < 192)"

definition utf8_second :: "nat \<Rightarrow> nat \<Rightarrow> bool" where
  "utf8_second b b1 =
     (if b = 224 then 160 \<le> b1 \<and> b1 < 192
      else if b = 237 then 128 \<le> b1 \<and> b1 < 160
      else if b = 240 then 144 \<le> b1 \<and> b1 < 192
      else if b = 244 then 128 \<le> b1 \<and> b1 < 144
      else utf8_cont b1)"

definition push :: "'a \<Rightarrow> exn + 'a list \<Rightarrow> exn + 'a list" where
  "push c m = (case m of Inl e \<Rightarrow> Inl e | Inr cs \<Rightarrow> Inr (c # cs))"

fun decode_utf8 :: "nat list \<Rightarrow> exn + pystr" where
  "decode_utf8 [] = Inr []"
| "decode_utf8 (b # bs) =
     (if b < 128 then push b (decode_utf8 bs)
      else if 194 \<le> b \<and> b < 224 then
        (case bs of
           b1 # r \<Rightarrow>
             if utf8_cont b1
             then push ((b - 192) * 64 + (b1 - 128)) (decode_utf8 r)
             else Inl UnicodeDecodeError
         | _ \<Rightarrow> Inl UnicodeDecodeError)
      else if 224 \<le> b \<and> b < 240 then
        (case bs of
           b1 # b2 # r \<Rightarrow>
             if utf8_second b b1 \<and> utf8_cont b2
             then push (((b - 224) * 64 + (b1 - 128)) * 64 + (b2 - 128)) (decode_utf8 r)
             else Inl UnicodeDecodeError
         | _ \<Rightarrow> Inl UnicodeDecodeError)
      else if 240 \<le> b \<and> b < 245 then
        (case bs of
           b1 # b2 # b3 # r \<Rightarrow>
             if utf8_second b b1 \<and> utf8_cont b2 \<and> utf8_cont b3
             then push ((((b - 240) * 64 + (b1 - 128)) * 64 + (b2 - 128)) * 64 + (b3 - 128))
                    (decode_utf8 r)
             else Inl UnicodeDecodeError
         | _ \<Rightarrow> Inl UnicodeDecodeError)
      else Inl UnicodeDecodeError)"

text \<open>
  The source function.  \<open>None\<close> gives the empty string; a string is re-encoded and
  decoded, and the \<open>except\<close> clause catches the two Unicode errors only; any other
  value has no \<open>encode\<close> method.
\<close>

definition decode_facebook_text :: "json \<Rightarrow> exn + pystr" where
  "decode_facebook_text text =
     (case text of
        JNull \<Rightarrow> Inr []
      | JStr s \<Rightarrow>
          (case bind_exn (encode_latin1 s) decode_utf8 of
             Inr u \<Rightarrow> Inr u
           | Inl e \<Rightarrow>
               if e = UnicodeDecodeError \<or> e = UnicodeEncodeError then Inr s else Inl e)
      | _ \<Rightarrow> Inl AttributeError)"

section \<open>linkify\<close>

text \<open>
  The pattern is \<open>(https?://[^\s<>"{}|\\^`\[\]]+)\<close>.  \<open>is_space\<close> is the class \<open>\s\<close> of
  a \<open>str\<close> pattern (Unicode white space); \<open>url_char\<close> is the negated character class.
\<close>

definition is_space :: "nat \<Rightarrow> bool" where
  "is_space c =
     ((9 \<le> c \<and> c \<le> 13) \<or> (28 \<le> c \<and> c \<le> 32) \<or> c = 133 \<or> c = 160 \<or> c = 5760
      \<or> (8192 \<le> c \<and> c \<le> 8202) \<or> c = 8232 \<or> c = 8233 \<or> c = 8239 \<or> c = 8287
      \<or> c = 12288)"

definition url_char :: "nat \<Rightarrow> bool" where
  "url_char c =
     (\<not> is_space c \<and> c \<notin> set [60, 62, 34, 123, 125, 124, 92, 94, 96, 91, 93])"

definition starts_with :: "pystr \<Rightarrow> pystr \<Rightarrow> bool" where
  "starts_with s p = (take (length p) s = p)"

text \<open>
  A match of the pattern at the start of \<open>s\<close>: the scheme, then the longest run of
  \<open>url_char\<close>s, which must not be empty.  The result is the matched text and the
  rest of \<open>s\<close>.
\<close>

definition match_url :: "pystr \<Rightarrow> (pystr \<times> pystr) option" where
  "match_url s =
     (let n = (if starts_with s (lit ''https://'') then 8
               else if starts_with s (lit ''http://'') then 7 else 0);
          body = takeWhile url_char (drop n s)
      in if n = 0 \<or> body = [] then None
         else Some (take n s @ body, drop (n + length body) s))"

text \<open>The replacement template, \<open>\1\<close> being the matched text.\<close>

definition anchor :: "pystr \<Rightarrow> pystr" where
  \<open>anchor u = lit ''<a href="'' @ u @ lit ''" target="_blank" rel="noopener">'' @ u @ lit ''</a>''\<close>

text \<open>
  \<open>re.sub\<close>: the leftmost match is replaced and the scan goes on after it; where no
  match starts, the character is copied.
\<close>

function sub_urls :: "pystr \<Rightarrow> pystr" where
  "sub_urls [] = []"
| "sub_urls (c # cs) =
     (case match_url (c # cs) of
        Some (u, rest) \<Rightarrow> anchor u @ sub_urls rest
      | None \<Rightarrow> c # sub_urls cs)"
  by pat_completeness auto
termination
  by (relation "measure length")
     (auto simp: match_url_def Let_def split: if_splits)

definition linkify :: "pystr \<Rightarrow> pystr" where
  "linkify text = (if text = [] then [] else sub_urls text)"


section \<open>Media paths\<close>

text \<open>\<open>s.split(sep)\<close> for a one-character separator.\<close>

fun split_on :: "nat \<Rightarrow> pystr \<Rightarrow> pystr list" where
  "split_on sep [] = [[]]"
| "split_on sep (c # cs) =
     (case split_on sep cs of
        [] \<Rightarrow> [[c]]
      | w # ws \<Rightarrow> if c = sep then [] # w # ws else (c # w) # ws)"

text \<open>
  \<open>Path(uri).name\<close> on a POSIX system: the path is split at the slashes, empty
  components and \<open>.\<close> components are dropped, and the name is the last component
  left, or the empty string.
\<close>

definition path_name :: "pystr \<Rightarrow> pystr" where
  "path_name uri =
     (case rev (filter (\<lambda>x. x \<noteq> [] \<and> x \<noteq> lit ''.'') (split_on 47 uri)) of
        [] \<Rightarrow> []
      | x # _ \<Rightarrow> x)"

text \<open>\<open>Path(uri)\<close> accepts a string only.\<close>

definition get_media_path :: "json \<Rightarrow> exn + pystr option" where
  "get_media_path uri =
     (if \<not> truthy uri then Inr None
      else case uri of
             JStr s \<Rightarrow> Inr (Some (lit ''media/'' @ path_name s))
           | _ \<Rightarrow> Inl TypeError)"

section \<open>copy_media_files\<close>

text \<open>
  The output directory is a map from file names to contents.  The source tree is what
  \<open>os.walk\<close> yields: for each directory its path and its files, each with its
  content; \<open>None\<close> when the source directory does not exist.  The state of the loop
  is the output directory and the list of the names printed as copied.
\<close>

definition ends_with :: "pystr \<Rightarrow> pystr \<Rightarrow> bool" where
  "ends_with s e = (length e \<le> length s \<and> drop (length s - length e) s = e)"

definition media_extensions :: "pystr list" where
  "media_extensions =
     [lit ''.jpg'', lit ''.jpeg'', lit ''.png'', lit ''.gif'', lit ''.mp4'', lit ''.webp'']"

definition is_media_file :: "pystr \<Rightarrow> bool" where
  "is_media_file file = list_ex (ends_with file) media_extensions"

type_synonym 'c outdir = "pystr \<rightharpoonup> 'c"

fun copy_files :: "(pystr \<times> 'c) list \<Rightarrow> 'c outdir \<times> pystr list \<Rightarrow> 'c outdir \<times> pystr list" where
  "copy_files [] st = st"
| "copy_files ((file, content) # files) (out, copied) =
     (if is_media_file file \<and> out file = None
      then copy_files files (out(file \<mapsto> content), copied @ [file])
      else copy_files files (out, copied))"

fun copy_walk ::
  "(pystr \<times> (pystr \<times> 'c) list) list \<Rightarrow> 'c outdir \<times> pystr list \<Rightarrow> 'c outdir \<times> pystr list" where
  "copy_walk [] st = st"
| "copy_walk ((root, files) # dirs) st = copy_walk dirs (copy_files files st)"

definition copy_media_files ::
  "(pystr \<times> (pystr \<times> 'c) list) list option \<Rightarrow> 'c outdir \<Rightarrow> 'c outdir \<times> pystr list" where
  "copy_media_files media_source out =
     (case media_source of
        None \<Rightarrow> (out, [])
      | Some walk \<Rightarrow> copy_walk walk (out, []))"

section \<open>load_json\<close>

text \<open>
  What opening and parsing a file gives: an exception (the file is missing or is not
  JSON) or the parsed value.  \<open>load_json\<close> catches every exception and returns \<open>None\<close>.
\<close>

datatype file_result = Unreadable | Parsed json

fun load_json :: "file_result \<Rightarrow> json" where
  "load_json Unreadable = JNull"
| "load_json (Parsed v) = v"

section \<open>load_posts\<close>

record media =
  m_uri :: json
  m_description :: pystr

record post =
  p_timestamp :: json
  p_title :: pystr
  p_text :: pystr
  p_media :: "media list"
  p_external_url :: json

text \<open>
  The loop over \<open>item.get('data', [])\<close>: the first entry with a \<open>post\<close> key gives the
  text and ends the loop; without one the text stays empty.
\<close>

fun find_post_text :: "json list \<Rightarrow> exn + pystr" where
  "find_post_text [] = Inr []"
| "find_post_text (d # ds) =
     (case py_in (lit ''post'') d of
        Inl e \<Rightarrow> Inl e
      | Inr True \<Rightarrow> bind_exn (py_getitem d (lit ''post'')) decode_facebook_text
      | Inr False \<Rightarrow> find_post_text ds)"

text \<open>
  The body of the inner loop over an attachment's \<open>data\<close>.  The state is the pair of
  \<open>post['media']\<close> and \<open>post['external_url']\<close>.
\<close>

definition scan_entry :: "json \<Rightarrow> media list \<times> json \<Rightarrow> exn + (media list \<times> json)" where
  "scan_entry d st =
     bind_exn (py_in (lit ''media'') d) (\<lambda>has_media.
     bind_exn
       (if has_media then
          bind_exn (py_getitem d (lit ''media'')) (\<lambda>md.
          bind_exn (py_get md (lit ''uri'') JNull) (\<lambda>u.
          bind_exn (py_get md (lit ''description'') (JStr [])) (\<lambda>dv.
          bind_exn (decode_facebook_text dv) (\<lambda>desc.
          Inr (fst st @ [\<lparr>m_uri = u, m_description = desc\<rparr>])))))
        else Inr (fst st)) (\<lambda>ms.
     bind_exn (py_in (lit ''external_context'') d) (\<lambda>has_ext.
     bind_exn
       (if has_ext then
          bind_exn (py_getitem d (lit ''external_context'')) (\<lambda>ec.
          py_get ec (lit ''url'') JNull)
        else Inr (snd st)) (\<lambda>ext.
     Inr (ms, ext)))))"

definition scan_attachment :: "json \<Rightarrow> media list \<times> json \<Rightarrow> exn + (media list \<times> json)" where
  "scan_attachment attachment st =
     bind_exn (py_get attachment (lit ''data'') (JArr [])) (\<lambda>dv.
     bind_exn (py_iter dv) (\<lambda>ds.
     foldM_exn scan_entry ds st))"

text \<open>One turn of the loop over the items: the post built from a raw item.\<close>

definition post_of_item :: "json \<Rightarrow> exn + post" where
  "post_of_item item =
     bind_exn (py_get item (lit ''timestamp'') (JInt 0)) (\<lambda>ts.
     bind_exn (py_get item (lit ''title'') (JStr [])) (\<lambda>tv.
     bind_exn (decode_facebook_text tv) (\<lambda>title.
     bind_exn (py_get item (lit ''data'') (JArr [])) (\<lambda>dv.
     bind_exn (py_iter dv) (\<lambda>ds.
     bind_exn (find_post_text ds) (\<lambda>txt.
     bind_exn (py_get item (lit ''attachments'') (JArr [])) (\<lambda>av.
     bind_exn (py_iter av) (\<lambda>atts.
     bind_exn (foldM_exn scan_attachment atts ([], JNull)) (\<lambda>st.
     Inr \<lparr>p_timestamp = ts, p_title = title, p_text = txt,
          p_media = fst st, p_external_url = snd st\<rparr>)))))))))"

text \<open>\<open>posts.sort(key=lambda x: x['timestamp'], reverse=True)\<close>.\<close>

definition sort_posts :: "post list \<Rightarrow> exn + post list" where
  "sort_posts posts = py_sort_reverse p_timestamp posts"

text \<open>
  For the statements about the order: the timestamps that are integers (a \<open>bool\<close>
  is one in Python) with their values, the values that are strings, and the stable
  descending sort by a key of a linear order.
\<close>

fun is_num :: "json \<Rightarrow> bool" where
  "is_num (JInt i) = True"
| "is_num (JBool b) = True"
| "is_num _ = False"

fun num_val :: "json \<Rightarrow> int" where
  "num_val (JInt i) = i"
| "num_val (JBool b) = (if b then 1 else 0)"
| "num_val _ = 0"

fun is_str :: "json \<Rightarrow> bool" where
  "is_str (JStr s) = True"
| "is_str _ = False"

definition sort_desc :: "('a \<Rightarrow> 'k::linorder) \<Rightarrow> 'a list \<Rightarrow> 'a list" where
  "sort_desc key xs = rev (sort_key key (rev xs))"

definition load_posts :: "file_result \<Rightarrow> exn + post list" where
  "load_posts posts_file =
     (let data = load_json posts_file
      in if \<not> truthy data then Inr []
         else bind_exn (py_iter data) (\<lambda>items.
              bind_exn (mapM_exn post_of_item items) sort_posts))"

text \<open>
  The scan of the attachments in the words of the specification.  \<open>item_entries\<close>
  are the data entries of all attachments of an item, in scan order;
  \<open>entry_media\<close> is the media reference of an entry that has one, and
  \<open>entry_url\<close> the URL of its \<open>external_context\<close>.
\<close>

definition entry_media :: "json \<Rightarrow> media list" where
  "entry_media d =
     (case d of
        JObj kvs \<Rightarrow>
          (case map_of kvs (lit ''media'') of
             Some (JObj m) \<Rightarrow>
               [\<lparr>m_uri = (case map_of m (lit ''uri'') of None \<Rightarrow> JNull | Some u \<Rightarrow> u),
                 m_description =
                   (case decode_facebook_text
                           (case map_of m (lit ''description'') of
                              None \<Rightarrow> JStr [] | Some v \<Rightarrow> v) of
                      Inr s \<Rightarrow> s | Inl e \<Rightarrow> [])\<rparr>]
           | _ \<Rightarrow> [])
      | _ \<Rightarrow> [])"

definition entry_url :: "json \<Rightarrow> json option" where
  "entry_url d =
     (case d of
        JObj kvs \<Rightarrow>
          (case map_of kvs (lit ''external_context'') of
             Some (JObj c) \<Rightarrow> Some (case map_of c (lit ''url'') of None \<Rightarrow> JNull | Some u \<Rightarrow> u)
           | _ \<Rightarrow> None)
      | _ \<Rightarrow> None)"

definition attachment_entries :: "json \<Rightarrow> json list" where
  "attachment_entries attachment =
     (case bind_exn (py_get attachment (lit ''data'') (JArr [])) py_iter of
        Inr ds \<Rightarrow> ds | Inl e \<Rightarrow> [])"

definition item_entries :: "json \<Rightarrow> json list" where
  "item_entries item =
     (case bind_exn (py_get item (lit ''attachments'') (JArr [])) py_iter of
        Inr atts \<Rightarrow> concat (map attachment_entries atts) | Inl e \<Rightarrow> [])"

section \<open>load_albums\<close>

record photo =
  ph_uri :: json
  ph_description :: pystr
  ph_timestamp :: json

record album =
  a_name :: pystr
  a_description :: pystr
  a_photos :: "photo list"
  a_cover :: json

definition photo_of :: "json \<Rightarrow> exn + photo" where
  "photo_of ph =
     bind_exn (py_get ph (lit ''uri'') JNull) (\<lambda>u.
     bind_exn (py_get ph (lit ''description'') (JStr [])) (\<lambda>dv.
     bind_exn (decode_facebook_text dv) (\<lambda>desc.
     bind_exn (py_get ph (lit ''creation_timestamp'') (JInt 0)) (\<lambda>ts.
     Inr \<lparr>ph_uri = u, ph_description = desc, ph_timestamp = ts\<rparr>))))"

text \<open>
  The cover: the \<open>uri\<close> of \<open>cover_photo\<close> when \<open>data.get('cover_photo')\<close> is true, else
  the \<open>uri\<close> of the first photo when there is one, else \<open>None\<close>.
\<close>

definition resolve_cover :: "json \<Rightarrow> photo list \<Rightarrow> exn + json" where
  "resolve_cover data photos =
     bind_exn (py_get data (lit ''cover_photo'') JNull) (\<lambda>cp.
       if truthy cp then
         bind_exn (py_getitem data (lit ''cover_photo'')) (\<lambda>c. py_get c (lit ''uri'') JNull)
       else (case photos of [] \<Rightarrow> Inr JNull | ph # _ \<Rightarrow> Inr (ph_uri ph)))"

text \<open>The album dict built from the parsed data of one file.\<close>

definition album_of_data :: "json \<Rightarrow> exn + album" where
  "album_of_data data =
     bind_exn (py_get data (lit ''name'') (JStr (lit ''Untitled Album''))) (\<lambda>nv.
     bind_exn (decode_facebook_text nv) (\<lambda>name.
     bind_exn (py_get data (lit ''description'') (JStr [])) (\<lambda>dv.
     bind_exn (decode_facebook_text dv) (\<lambda>desc.
     bind_exn (py_get data (lit ''photos'') (JArr [])) (\<lambda>pv.
     bind_exn (py_iter pv) (\<lambda>phs.
     bind_exn (mapM_exn photo_of phs) (\<lambda>photos.
     bind_exn (resolve_cover data photos) (\<lambda>cover.
     Inr \<lparr>a_name = name, a_description = desc, a_photos = photos, a_cover = cover\<rparr>))))))))"

text \<open>
  One turn of the loop over the album files: the albums list after the file, from
  the list before it.  A file whose data is false is skipped; an album is appended
  only when it has photos.
\<close>

definition load_album_file :: "file_result \<Rightarrow> album list \<Rightarrow> exn + album list" where
  "load_album_file album_file albums =
     (let data = load_json album_file
      in if \<not> truthy data then Inr albums
         else bind_exn (album_of_data data) (\<lambda>album.
              if a_photos album \<noteq> [] then Inr (albums @ [album]) else Inr albums))"

text \<open>
  The argument is \<open>None\<close> when the album directory does not exist, and otherwise the
  JSON files of the directory in the order of \<open>sorted\<close>.
\<close>

definition load_albums :: "file_result list option \<Rightarrow> exn + album list" where
  "load_albums album_dir =
     (case album_dir of
        None \<Rightarrow> Inr []
      | Some files \<Rightarrow> foldM_exn load_album_file files [])"

section \<open>generate_post_html\<close>

text \<open>
  The three fragments the function computes before it fills its template: the media
  elements, the link box and the text paragraph.  A line break of a template is the
  code point 10.
\<close>

definition media_element :: "pystr \<Rightarrow> pystr \<Rightarrow> pystr" where
  \<open>media_element media_path alt =
     [10] @ lit ''            <div class="post-media">'' @
     [10] @ lit ''                <img src="'' @ media_path @ lit ''" alt="'' @ alt
          @ lit ''" loading="lazy">'' @
     [10] @ lit ''            </div>'' @
     [10] @ lit ''            ''\<close>

definition add_media_html :: "media \<Rightarrow> pystr \<Rightarrow> exn + pystr" where
  "add_media_html m media_html =
     bind_exn (get_media_path (m_uri m)) (\<lambda>media_path.
       case media_path of
         None \<Rightarrow> Inr media_html
       | Some path \<Rightarrow>
           if path = [] then Inr media_html
           else Inr (media_html @ media_element path (escape (m_description m))))"

definition post_media_html :: "post \<Rightarrow> exn + pystr" where
  "post_media_html p = foldM_exn add_media_html (p_media p) []"

definition post_text_html :: "post \<Rightarrow> pystr" where
  "post_text_html p =
     (if p_text p = [] then []
      else lit ''<p>'' @ linkify (escape (p_text p)) @ lit ''</p>'')"

section \<open>Properties of html.escape\<close>

lemma lit_simps:
  "lit [] = []"
  "lit (c # cs) = of_char c # lit cs"
  by (simp_all add: lit_def)

lemma lit_eq_iff: "lit a = lit b \<longleftrightarrow> a = b"
  unfolding lit_def by (simp add: inj_map_eq_map inj_of_char)

lemma replace_char_Nil: "replace_char old new [] = []"
  by (simp add: replace_char_def)

lemma replace_char_append:
  "replace_char old new (a @ b) = replace_char old new a @ replace_char old new b"
  by (simp add: replace_char_def)

lemma replace_char_Cons:
  "replace_char old new (c # s) = (if c = old then new else [c]) @ replace_char old new s"
  by (simp add: replace_char_def)

lemma escape_Nil: "escape [] = []"
  by (simp add: escape_def replace_char_Nil)

lemma escape_append: "escape (a @ b) = escape a @ escape b"
  by (simp add: escape_def replace_char_append)

lemma escape_single:
  "escape [c] =
     (if c = 38 then lit ''&amp;'' else if c = 60 then lit ''&lt;''
      else if c = 62 then lit ''&gt;'' else if c = 34 then lit ''&quot;''
      else if c = 39 then lit ''&#x27;'' else [c])"
  by (simp add: escape_def replace_char_Cons replace_char_Nil lit_simps)

lemma escape_Cons: "escape (c # s) = escape [c] @ escape s"
  using escape_append [of "[c]" s] by simp

lemma escape_step:
  "escape (c # s) =
     (if c = 38 then lit ''&amp;'' else if c = 60 then lit ''&lt;''
      else if c = 62 then lit ''&gt;'' else if c = 34 then lit ''&quot;''
      else if c = 39 then lit ''&#x27;'' else [c]) @ escape s"
  using escape_Cons [of c s] by (simp only: escape_single)

lemma escape_plain: "set s \<inter> html_special = {} \<Longrightarrow> escape s = s"
proof (induction s)
  case Nil
  show ?case by (simp add: escape_Nil)
next
  case (Cons c s)
  from Cons.prems have c: "c \<notin> html_special" and s: "set s \<inter> html_special = {}"
    by auto
  from c have "escape [c] = [c]"
    by (simp add: escape_single html_special_def)
  with Cons.IH [OF s] show ?case
    by (simp add: escape_Cons [of c s])
qed

lemma length_escape_single: "length (escape [c]) \<ge> 1"
  by (simp add: escape_single lit_simps)

lemma length_escape: "length s \<le> length (escape s)"
proof (induction s)
  case Nil
  show ?case by (simp add: escape_Nil)
next
  case (Cons c s)
  with length_escape_single [of c] show ?case
    by (simp add: escape_Cons [of c s])
qed

lemma length_escape_special:
  "set s \<inter> html_special \<noteq> {} \<Longrightarrow> length s < length (escape s)"
proof (induction s)
  case Nil
  then show ?case by simp
next
  case (Cons c s)
  show ?case
  proof (cases "c \<in> html_special")
    case True
    then have "length (escape [c]) > 1"
      by (auto simp: escape_single html_special_def lit_simps)
    with length_escape [of s] show ?thesis
      by (simp add: escape_Cons [of c s])
  next
    case False
    with Cons.prems have "set s \<inter> html_special \<noteq> {}" by auto
    from Cons.IH [OF this] length_escape_single [of c] show ?thesis
      by (simp add: escape_Cons [of c s])
  qed
qed

lemma escape_special_amp:
  "set s \<inter> html_special \<noteq> {} \<Longrightarrow> 38 \<in> set (escape s)"
proof (induction s)
  case Nil
  then show ?case by simp
next
  case (Cons c s)
  show ?case
  proof (cases "c \<in> html_special")
    case True
    then have "38 \<in> set (escape [c])"
      by (auto simp: escape_single html_special_def lit_simps)
    then show ?thesis
      by (simp add: escape_Cons [of c s])
  next
    case False
    with Cons.prems have "set s \<inter> html_special \<noteq> {}" by auto
    from Cons.IH [OF this] show ?thesis
      by (simp add: escape_Cons [of c s])
  qed
qed

text \<open>
  Claim C1, as amended.  \<open>html.escape\<close> is not idempotent: escaping a second time
  leaves the text unchanged exactly when the original text has none of the five
  characters ampersand, less-than, greater-than, double quote and apostrophe; on
  every other text the second pass lengthens the output of the first (it escapes
  the ampersands of the entities).
\<close>

theorem escape_twice_iff:
  "escape (escape s) = escape s \<longleftrightarrow> set s \<inter> html_special = {}"
proof
  assume eq: "escape (escape s) = escape s"
  show "set s \<inter> html_special = {}"
  proof (rule ccontr)
    assume sp: "set s \<inter> html_special \<noteq> {}"
    from escape_special_amp [OF sp] have "set (escape s) \<inter> html_special \<noteq> {}"
      by (auto simp: html_special_def)
    from length_escape_special [OF this] eq show False by simp
  qed
next
  assume "set s \<inter> html_special = {}"
  then have "escape s = s" by (rule escape_plain)
  then show "escape (escape s) = escape s" by simp
qed

theorem escape_twice_iff_witness:
  "escape (escape (lit ''a b'')) = escape (lit ''a b'')
   \<and> escape (escape (lit ''a<b'')) \<noteq> escape (lit ''a<b'')"
  using escape_twice_iff [of "lit ''a b''"] escape_twice_iff [of "lit ''a<b''"]
  by (simp add: html_special_def lit_simps)

theorem escape_not_idempotent:
  "escape (escape (lit ''&'')) \<noteq> escape (lit ''&'')"
  by (simp add: escape_step escape_Nil lit_simps)

section \<open>Properties of decode_facebook_text\<close>


lemma bind_exn_simps:
  "bind_exn (Inl e) f = Inl e"
  "bind_exn (Inr x) f = f x"
  by (simp_all add: bind_exn_def)

lemma push_simps:
  "push c (Inl e) = Inl e"
  "push c (Inr cs) = Inr (c # cs)"
  by (simp_all add: push_def)

lemma push_decodes:
  "m = Inl UnicodeDecodeError \<or> (\<exists>u. m = Inr u)
   \<Longrightarrow> push c m = Inl UnicodeDecodeError \<or> (\<exists>u. push c m = Inr u)"
  by (auto simp: push_simps)

lemma decode_utf8_cases:
  "decode_utf8 bs = Inl UnicodeDecodeError \<or> (\<exists>u. decode_utf8 bs = Inr u)"
proof (induction bs rule: decode_utf8.induct)
  case 1
  show ?case by simp
next
  case (2 b bs)
  show ?case
  proof (cases "b < 128")
    case True
    with 2(1) show ?thesis by (simp add: push_decodes)
  next
    case n1: False
    show ?thesis
    proof (cases "194 \<le> b \<and> b < 224")
      case True
      with n1 2(2) show ?thesis
        by (cases bs) (simp_all add: push_decodes)
    next
      case n2: False
      show ?thesis
      proof (cases "224 \<le> b \<and> b < 240")
        case True
        show ?thesis
        proof (cases bs)
          case Nil
          with n1 n2 True show ?thesis by simp
        next
          case (Cons b1 r1)
          show ?thesis
          proof (cases r1)
            case Nil
            with Cons n1 n2 True show ?thesis by simp
          next
            case c2: (Cons b2 r)
            with Cons n1 n2 True 2(3) [of b1 r1 b2 r] show ?thesis
              by (simp add: push_decodes)
          qed
        qed
      next
        case n3: False
        show ?thesis
        proof (cases "240 \<le> b \<and> b < 245")
          case True
          show ?thesis
          proof (cases bs)
            case Nil
            with n1 n2 n3 True show ?thesis by simp
          next
            case (Cons b1 r1)
            show ?thesis
            proof (cases r1)
              case Nil
              with Cons n1 n2 n3 True show ?thesis by simp
            next
              case c2: (Cons b2 r2)
              show ?thesis
              proof (cases r2)
                case Nil
                with Cons c2 n1 n2 n3 True show ?thesis by simp
              next
                case c3: (Cons b3 r)
                with Cons c2 n1 n2 n3 True 2(4) [of b1 r1 b2 r2 b3 r] show ?thesis
                  by (simp add: push_decodes)
              qed
            qed
          qed
        next
          case False
          with n1 n2 n3 have "decode_utf8 (b # bs) = Inl UnicodeDecodeError"
            by (simp only: decode_utf8.simps if_False)
          then show ?thesis by simp
        qed
      qed
    qed
  qed
qed

lemma roundtrip_error:
  "bind_exn (encode_latin1 s) decode_utf8 = Inl e
   \<Longrightarrow> e = UnicodeDecodeError \<or> e = UnicodeEncodeError"
  using decode_utf8_cases [of s]
  by (auto simp: encode_latin1_def bind_exn_simps split: if_splits)

text \<open>
  Claim C2, as amended.  The absent text gives the empty string.  For every text
  the function returns and raises nothing: the result is the text re-encoded as
  Latin-1 and decoded as UTF-8 when that succeeds, and the text itself when either
  step fails.  For a value that is neither absent nor a text (a number, a boolean,
  a list or an object of the JSON) the function raises \<open>AttributeError\<close>, which its
  \<open>except\<close> clause does not catch.
\<close>

theorem decode_facebook_text_on_text:
  "decode_facebook_text JNull = Inr []
   \<and> decode_facebook_text (JStr s) =
       Inr (case bind_exn (encode_latin1 s) decode_utf8 of Inr u \<Rightarrow> u | Inl e \<Rightarrow> s)
   \<and> (v \<noteq> JNull \<and> \<not> is_str v \<longrightarrow> decode_facebook_text v = Inl AttributeError)"
proof (intro conjI impI)
  show "decode_facebook_text JNull = Inr []"
    by (simp add: decode_facebook_text_def)
next
  show "decode_facebook_text (JStr s) =
       Inr (case bind_exn (encode_latin1 s) decode_utf8 of Inr u \<Rightarrow> u | Inl e \<Rightarrow> s)"
  proof (cases "bind_exn (encode_latin1 s) decode_utf8")
    case (Inl e)
    with roundtrip_error [OF Inl] show ?thesis
      by (auto simp: decode_facebook_text_def)
  next
    case (Inr u)
    then show ?thesis
      by (simp add: decode_facebook_text_def)
  qed
next
  assume "v \<noteq> JNull \<and> \<not> is_str v"
  then show "decode_facebook_text v = Inl AttributeError"
    by (cases v) (simp_all add: decode_facebook_text_def)
qed

lemma roundtrip_good:
  "bind_exn (encode_latin1 [84, 195, 169, 115, 116]) decode_utf8 = Inr [84, 233, 115, 116]"
  by code_simp

lemma roundtrip_bad_utf8:
  "bind_exn (encode_latin1 [84, 233, 115, 116]) decode_utf8 = Inl UnicodeDecodeError"
  by code_simp

lemma roundtrip_not_latin1:
  "bind_exn (encode_latin1 [84, 8364]) decode_utf8 = Inl UnicodeEncodeError"
  by code_simp

theorem decode_facebook_text_on_text_witness:
  "decode_facebook_text (JStr [84, 195, 169, 115, 116]) = Inr [84, 233, 115, 116]
   \<and> decode_facebook_text (JStr [84, 233, 115, 116]) = Inr [84, 233, 115, 116]
   \<and> decode_facebook_text (JStr [84, 8364]) = Inr [84, 8364]
   \<and> decode_facebook_text (JArr [JStr (lit ''a'')]) = Inl AttributeError"
  using decode_facebook_text_on_text [of "[84, 195, 169, 115, 116]" "JArr [JStr (lit ''a'')]"]
    decode_facebook_text_on_text [of "[84, 233, 115, 116]" "JArr [JStr (lit ''a'')]"]
    decode_facebook_text_on_text [of "[84, 8364]" "JArr [JStr (lit ''a'')]"]
  by (simp add: roundtrip_good roundtrip_bad_utf8 roundtrip_not_latin1)

text \<open>
  A title that is a number: the function raises, and so does \<open>load_posts\<close>, which
  passes the values of the file to it as they are.
\<close>

theorem decode_facebook_text_number_raises:
  "decode_facebook_text (JInt 5) = Inl AttributeError
   \<and> load_posts (Parsed (JArr [JObj [(lit ''title'', JInt 5)]])) = Inl AttributeError"
  by code_simp

section \<open>Properties of load_posts\<close>


lemma bind_exn_Inr_iff:
  "bind_exn m f = Inr y \<longleftrightarrow> (\<exists>x. m = Inr x \<and> f x = Inr y)"
  by (cases m) (simp_all add: bind_exn_def)

lemma sorted_sort_desc:
  "sorted_wrt (\<lambda>x y. key y \<le> key x) (sort_desc key xs)"
proof -
  have "sorted (map key (sort_key key (rev xs)))" by simp
  then have "sorted_wrt (\<lambda>x y. key x \<le> key y) (sort_key key (rev xs))"
    by (simp only: sorted_map)
  then show ?thesis
    by (simp add: sort_desc_def sorted_wrt_rev)
qed

lemma py_lt_num:
  "is_num a \<Longrightarrow> is_num b \<Longrightarrow> py_lt a b = Inr (num_val a < num_val b)"
  by (cases a; cases b) simp_all

lemma insort_lt_mset: "insort_lt key x ys = Inr zs \<Longrightarrow> mset zs = add_mset x (mset ys)"
proof (induction ys arbitrary: zs)
  case Nil
  then show ?case by auto
next
  case (Cons y ys)
  then show ?case
    by (auto split: sum.splits bool.splits)
qed

lemma sort_lt_mset: "sort_lt key xs = Inr ys \<Longrightarrow> mset ys = mset xs"
proof (induction xs arbitrary: ys)
  case Nil
  then show ?case by simp
next
  case (Cons x xs)
  then show ?case
    by (auto split: sum.splits dest: insort_lt_mset)
qed

lemma insort_lt_num:
  assumes "is_num (key x)" and "list_all (\<lambda>y. is_num (key y)) ys"
  shows "insort_lt key x ys = Inr (insort_key (\<lambda>y. num_val (key y)) x ys)"
  using assms(2)
proof (induction ys)
  case Nil
  show ?case by simp
next
  case (Cons y ys)
  then have y: "is_num (key y)" and ys: "list_all (\<lambda>y. is_num (key y)) ys"
    by simp_all
  from py_lt_num [OF y assms(1)] Cons.IH [OF ys] show ?case
    by (cases "num_val (key y) < num_val (key x)") simp_all
qed

lemma sort_lt_num:
  "list_all (\<lambda>y. is_num (key y)) xs
   \<Longrightarrow> sort_lt key xs = Inr (sort_key (\<lambda>y. num_val (key y)) xs)"
proof (induction xs)
  case Nil
  show ?case by simp
next
  case (Cons x xs)
  then have x: "is_num (key x)" and xs: "list_all (\<lambda>y. is_num (key y)) xs"
    by simp_all
  from xs have "list_all (\<lambda>y. is_num (key y)) (sort_key (\<lambda>y. num_val (key y)) xs)"
    by (simp add: list_all_iff)
  from insort_lt_num [OF x this] Cons.IH [OF xs] show ?case by simp
qed

lemma sort_posts_num:
  "list_all (\<lambda>p. is_num (p_timestamp p)) ps
   \<Longrightarrow> sort_posts ps = Inr (sort_desc (\<lambda>p. num_val (p_timestamp p)) ps)"
  using sort_lt_num [of p_timestamp "rev ps"]
  by (simp add: sort_posts_def py_sort_reverse_def sort_desc_def)

lemma sort_posts_mset: "sort_posts ps = Inr posts \<Longrightarrow> mset posts = mset ps"
  by (auto simp: sort_posts_def py_sort_reverse_def split: sum.splits dest: sort_lt_mset)

lemma sort_posts_sorted:
  assumes "sort_posts ps = Inr posts"
      and "list_all (\<lambda>p. is_num (p_timestamp p)) posts"
  shows "sorted_wrt (\<lambda>p q. num_val (p_timestamp q) \<le> num_val (p_timestamp p)) posts"
proof -
  from assms(1) have "set posts = set ps"
    using sort_posts_mset mset_eq_setD by blast
  with assms(2) have "list_all (\<lambda>p. is_num (p_timestamp p)) ps"
    by (simp add: list_all_iff)
  from sort_posts_num [OF this] assms(1)
  have "posts = sort_desc (\<lambda>p. num_val (p_timestamp p)) ps" by simp
  then show ?thesis by (simp add: sorted_sort_desc)
qed

text \<open>
  Timestamps that are not integers: lists and floats are sorted as Python sorts
  them, and keys that do not compare end the sort with \<open>TypeError\<close>.
\<close>

lemma sort_posts_list_keys:
  "map_sum id (map p_timestamp)
     (load_posts (Parsed (JArr [JObj [(lit ''timestamp'', JArr [JInt 1, JInt 5])],
                                JObj [(lit ''timestamp'', JArr [JInt 2])],
                                JObj [(lit ''timestamp'', JArr [JInt 1])]])))
   = Inr [JArr [JInt 2], JArr [JInt 1, JInt 5], JArr [JInt 1]]"
  by code_simp

lemma sort_posts_float_keys:
  "map_sum id (map p_timestamp)
     (load_posts (Parsed (JArr [JObj [(lit ''timestamp'', JFloat (Finite (3 / 2)))],
                                JObj [(lit ''timestamp'', JInt 2)],
                                JObj [(lit ''timestamp'', JFloat PosInf)]])))
   = Inr [JFloat PosInf, JInt 2, JFloat (Finite (3 / 2))]"
  by code_simp

lemma sort_posts_mixed_keys:
  "load_posts (Parsed (JArr [JObj [(lit ''timestamp'', JArr [JInt 1])],
                             JObj [(lit ''timestamp'', JInt 2)]])) = Inl TypeError"
  by code_simp

lemma sorted_desc_partition:
  fixes f :: "'a \<Rightarrow> int"
  assumes "sorted_wrt (\<lambda>p q. f q \<le> f p) xs"
  shows "xs = filter (\<lambda>p. 0 < f p) xs @ filter (\<lambda>p. f p = 0) xs @ filter (\<lambda>p. f p < 0) xs"
  using assms
proof (induction xs)
  case Nil
  show ?case by simp
next
  case (Cons x xs)
  then have le: "\<forall>y\<in>set xs. f y \<le> f x"
    and IH: "xs = filter (\<lambda>p. 0 < f p) xs @ filter (\<lambda>p. f p = 0) xs @ filter (\<lambda>p. f p < 0) xs"
    by simp_all
  consider "0 < f x" | "f x = 0" | "f x < 0" by linarith
  then show ?case
  proof cases
    case 1
    with IH show ?thesis by simp
  next
    case 2
    with le have "filter (\<lambda>p. 0 < f p) xs = []"
      by (auto simp: filter_empty_conv)
    with 2 IH show ?thesis by simp
  next
    case 3
    with le have "filter (\<lambda>p. 0 < f p) xs = []" "filter (\<lambda>p. f p = 0) xs = []"
      by (auto simp: filter_empty_conv)
    with 3 IH show ?thesis by simp
  qed
qed

lemma load_posts_cases:
  assumes "load_posts posts_file = Inr posts"
  shows "posts = [] \<or> (\<exists>items ps. py_iter (load_json posts_file) = Inr items
           \<and> mapM_exn post_of_item items = Inr ps \<and> sort_posts ps = Inr posts)"
  using assms
  by (auto simp: load_posts_def Let_def bind_exn_Inr_iff split: if_splits)

text \<open>
  The posts returned are the posts built from the items, rearranged.
\<close>

lemma load_posts_permutes:
  assumes "load_posts posts_file = Inr posts" and "posts \<noteq> []"
  shows "\<exists>items ps. py_iter (load_json posts_file) = Inr items
           \<and> mapM_exn post_of_item items = Inr ps \<and> mset posts = mset ps"
  using load_posts_cases [OF assms(1)] assms(2) sort_posts_mset by blast

text \<open>An item without a \<open>timestamp\<close> key gets the timestamp 0.\<close>

lemma post_of_item_default_timestamp:
  assumes "post_of_item (JObj kvs) = Inr p" and "map_of kvs (lit ''timestamp'') = None"
  shows "p_timestamp p = JInt 0"
  using assms by (auto simp: post_of_item_def bind_exn_Inr_iff)

text \<open>
  Claim C3, as amended.  When \<open>load_posts\<close> returns posts whose timestamps are
  integers, the timestamps never increase along the sequence, and the sequence is
  made of the posts with a positive timestamp, then those with the timestamp zero
  (the absent timestamps among them), then those with a negative timestamp.  So a
  zero timestamp is at the end exactly when no timestamp is negative.
\<close>

theorem load_posts_newest_first:
  assumes "load_posts posts_file = Inr posts"
      and "list_all (\<lambda>p. is_num (p_timestamp p)) posts"
  shows "sorted_wrt (\<lambda>p q. num_val (p_timestamp q) \<le> num_val (p_timestamp p)) posts
       \<and> posts = filter (\<lambda>p. 0 < num_val (p_timestamp p)) posts
               @ filter (\<lambda>p. num_val (p_timestamp p) = 0) posts
               @ filter (\<lambda>p. num_val (p_timestamp p) < 0) posts"
proof -
  have s: "sorted_wrt (\<lambda>p q. num_val (p_timestamp q) \<le> num_val (p_timestamp p)) posts"
    using load_posts_cases [OF assms(1)] assms(2)
    by (auto intro: sort_posts_sorted)
  from s sorted_desc_partition [OF s] show ?thesis by blast
qed


theorem load_posts_newest_first_witness:
  "load_posts (Parsed (JArr [JObj [(lit ''timestamp'', JInt 5)],
                             JObj [(lit ''title'', JStr (lit ''a''))],
                             JObj [(lit ''timestamp'', JInt 7)]])) =
     Inr [\<lparr>p_timestamp = JInt 7, p_title = [], p_text = [], p_media = [],
            p_external_url = JNull\<rparr>,
          \<lparr>p_timestamp = JInt 5, p_title = [], p_text = [], p_media = [],
            p_external_url = JNull\<rparr>,
          \<lparr>p_timestamp = JInt 0, p_title = lit ''a'', p_text = [], p_media = [],
            p_external_url = JNull\<rparr>]
   \<and> sorted_wrt (\<lambda>p q. num_val (p_timestamp q) \<le> num_val (p_timestamp p))
         [\<lparr>p_timestamp = JInt 7, p_title = [], p_text = [], p_media = [],
            p_external_url = JNull\<rparr>,
          \<lparr>p_timestamp = JInt 5, p_title = [], p_text = [], p_media = [],
            p_external_url = JNull\<rparr>,
          \<lparr>p_timestamp = JInt 0, p_title = lit ''a'', p_text = [], p_media = [],
            p_external_url = JNull\<rparr>]"
proof -
  have ev: "load_posts (Parsed (JArr [JObj [(lit ''timestamp'', JInt 5)],
                             JObj [(lit ''title'', JStr (lit ''a''))],
                             JObj [(lit ''timestamp'', JInt 7)]])) =
     Inr [\<lparr>p_timestamp = JInt 7, p_title = [], p_text = [], p_media = [],
            p_external_url = JNull\<rparr>,
          \<lparr>p_timestamp = JInt 5, p_title = [], p_text = [], p_media = [],
            p_external_url = JNull\<rparr>,
          \<lparr>p_timestamp = JInt 0, p_title = lit ''a'', p_text = [], p_media = [],
            p_external_url = JNull\<rparr>]"
    by code_simp
  from load_posts_newest_first [OF ev] ev show ?thesis by simp
qed

text \<open>
  A file with an item without timestamp and an item with the timestamp \<open>-1\<close>: the
  post with the timestamp zero comes first, not last.
\<close>

theorem load_posts_zero_not_last:
  "load_posts (Parsed (JArr [JObj [(lit ''title'', JStr (lit ''a''))],
                             JObj [(lit ''timestamp'', JInt (- 1))]])) =
     Inr [\<lparr>p_timestamp = JInt 0, p_title = lit ''a'', p_text = [], p_media = [],
            p_external_url = JNull\<rparr>,
          \<lparr>p_timestamp = JInt (- 1), p_title = [], p_text = [], p_media = [],
            p_external_url = JNull\<rparr>]"
  by code_simp

section \<open>Properties of load_albums\<close>


lemma foldM_exn_append:
  "foldM_exn f (xs @ ys) st = bind_exn (foldM_exn f xs st) (foldM_exn f ys)"
  by (induction xs arbitrary: st) (auto simp: bind_exn_def split: sum.splits)

lemma foldM_exn_invariant:
  assumes "foldM_exn f xs st = Inr st'" and "P st"
      and "\<And>x s s'. x \<in> set xs \<Longrightarrow> P s \<Longrightarrow> f x s = Inr s' \<Longrightarrow> P s'"
  shows "P st'"
  using assms
proof (induction xs arbitrary: st)
  case Nil
  then show ?case by simp
next
  case (Cons x xs)
  from Cons.prems(1) obtain s1 where s1: "f x st = Inr s1" and rest: "foldM_exn f xs s1 = Inr st'"
    by (auto split: sum.splits)
  have "P s1" using Cons.prems(3) [of x st s1] Cons.prems(2) s1 by simp
  show ?case
  proof (rule Cons.IH [OF rest \<open>P s1\<close>])
    fix y s s'
    assume "y \<in> set xs" "P s" "f y s = Inr s'"
    then show "P s'" using Cons.prems(3) [of y s s'] by simp
  qed
qed

lemma load_album_file_photos:
  assumes "load_album_file f albums = Inr albums'"
      and "list_all (\<lambda>a. a_photos a \<noteq> []) albums"
  shows "list_all (\<lambda>a. a_photos a \<noteq> []) albums'"
  using assms
  by (auto simp: load_album_file_def Let_def bind_exn_Inr_iff split: if_splits)

lemma load_album_file_discard:
  assumes "album_of_data (load_json f) = Inr a" and "a_photos a = []"
  shows "load_album_file f albums = Inr albums"
  using assms by (simp add: load_album_file_def Let_def bind_exn_simps)

text \<open>
  Claim C4.  Every album that \<open>load_albums\<close> returns has at least one photo; and a
  file whose album has an empty photo list leaves no trace: the result is the same
  as if the file were not in the directory.  The renderers are called on the
  result of \<open>load_albums\<close> only.
\<close>

theorem load_albums_no_empty_album:
  "(load_albums album_dir = Inr albums \<longrightarrow> list_all (\<lambda>a. a_photos a \<noteq> []) albums)
   \<and> (album_of_data (load_json f) = Inr a \<and> a_photos a = [] \<longrightarrow>
        load_albums (Some (before @ f # after)) = load_albums (Some (before @ after)))"
proof (intro conjI impI)
  assume r: "load_albums album_dir = Inr albums"
  show "list_all (\<lambda>a. a_photos a \<noteq> []) albums"
  proof (cases album_dir)
    case None
    with r show ?thesis by (simp add: load_albums_def)
  next
    case (Some files)
    with r have "foldM_exn load_album_file files [] = Inr albums"
      by (simp add: load_albums_def)
    then show ?thesis
      by (rule foldM_exn_invariant) (auto intro: load_album_file_photos)
  qed
next
  assume "album_of_data (load_json f) = Inr a \<and> a_photos a = []"
  then have "\<And>albums. load_album_file f albums = Inr albums"
    by (auto intro: load_album_file_discard)
  then have "foldM_exn load_album_file (f # after) = foldM_exn load_album_file after"
    by (intro ext) simp
  then show "load_albums (Some (before @ f # after)) = load_albums (Some (before @ after))"
    by (simp only: load_albums_def option.case foldM_exn_append)
qed


lemma load_albums_example:
  "load_albums (Some [Parsed (JObj [(lit ''name'', JStr (lit ''A'')),
       (lit ''photos'', JArr [JObj [(lit ''uri'', JStr (lit ''x/p.jpg''))]])]),
     Parsed (JObj [(lit ''name'', JStr (lit ''B'')), (lit ''photos'', JArr [])])]) =
   Inr [\<lparr>a_name = lit ''A'', a_description = [],
          a_photos = [\<lparr>ph_uri = JStr (lit ''x/p.jpg''), ph_description = [],
                       ph_timestamp = JInt 0\<rparr>],
          a_cover = JStr (lit ''x/p.jpg'')\<rparr>]"
  by code_simp

lemma album_of_data_example:
  "album_of_data (load_json (Parsed (JObj [(lit ''name'', JStr (lit ''B'')), (lit ''photos'', JArr [])])))
     = Inr \<lparr>a_name = lit ''B'', a_description = [], a_photos = [], a_cover = JNull\<rparr>"
  by code_simp

theorem load_albums_no_empty_album_witness:
  "list_all (\<lambda>a. a_photos a \<noteq> [])
     [\<lparr>a_name = lit ''A'', a_description = [],
          a_photos = [\<lparr>ph_uri = JStr (lit ''x/p.jpg''), ph_description = [],
                       ph_timestamp = JInt 0\<rparr>],
          a_cover = JStr (lit ''x/p.jpg'')\<rparr>]
   \<and> load_albums (Some ([] @ Parsed (JObj [(lit ''name'', JStr (lit ''B'')), (lit ''photos'', JArr [])]) # []))
       = load_albums (Some ([] @ []))"
  using load_albums_no_empty_album [of
     "Some [Parsed (JObj [(lit ''name'', JStr (lit ''A'')),
       (lit ''photos'', JArr [JObj [(lit ''uri'', JStr (lit ''x/p.jpg''))]])]),
     Parsed (JObj [(lit ''name'', JStr (lit ''B'')), (lit ''photos'', JArr [])])]"
     "[\<lparr>a_name = lit ''A'', a_description = [],
          a_photos = [\<lparr>ph_uri = JStr (lit ''x/p.jpg''), ph_description = [],
                       ph_timestamp = JInt 0\<rparr>],
          a_cover = JStr (lit ''x/p.jpg'')\<rparr>]"
     "Parsed (JObj [(lit ''name'', JStr (lit ''B'')), (lit ''photos'', JArr [])])"
     "\<lparr>a_name = lit ''B'', a_description = [], a_photos = [], a_cover = JNull\<rparr>"
     "[]" "[]"]
    load_albums_example album_of_data_example
  by simp

lemma album_of_data_cover:
  assumes "album_of_data data = Inr a"
  shows "resolve_cover data (a_photos a) = Inr (a_cover a)"
  using assms by (auto simp: album_of_data_def bind_exn_Inr_iff)

lemma album_of_data_photos:
  assumes "album_of_data data = Inr a"
  shows "\<exists>pv phs. py_get data (lit ''photos'') (JArr []) = Inr pv \<and> py_iter pv = Inr phs
           \<and> mapM_exn photo_of phs = Inr (a_photos a)"
  using assms by (auto simp: album_of_data_def bind_exn_Inr_iff)

lemma photo_of_uri: "photo_of ph = Inr p \<Longrightarrow> py_get ph (lit ''uri'') JNull = Inr (ph_uri p)"
  by (auto simp: photo_of_def bind_exn_Inr_iff)

lemma py_getitem_get:
  "py_get data k d = Inr v \<Longrightarrow> truthy v \<Longrightarrow> \<not> truthy d \<Longrightarrow> py_getitem data k = Inr v"
  by (cases data) (auto split: option.splits)

text \<open>
  Claim C5, as amended.  Let \<open>cp\<close> be \<open>data.get('cover_photo')\<close>.  When \<open>cp\<close> is true
  (a non-empty object), the cover is \<open>cp.get('uri')\<close>.  When it is false (the key is
  absent, or its value is \<open>null\<close> or empty), the cover is the \<open>uri\<close> of the first photo
  of the album, which is the \<open>uri\<close> of the first entry of the \<open>photos\<close> array, and
  \<open>None\<close> when the album has no photo.
\<close>

theorem album_cover_resolution:
  assumes "album_of_data data = Inr a"
      and "py_get data (lit ''cover_photo'') JNull = Inr cp"
  shows "(truthy cp \<longrightarrow> py_get cp (lit ''uri'') JNull = Inr (a_cover a))
       \<and> (\<not> truthy cp \<longrightarrow> a_cover a = (case a_photos a of [] \<Rightarrow> JNull | ph # _ \<Rightarrow> ph_uri ph))
       \<and> (\<not> truthy cp \<and> py_get data (lit ''photos'') (JArr []) = Inr (JArr (ph0 # rest))
            \<longrightarrow> py_get ph0 (lit ''uri'') JNull = Inr (a_cover a))"
proof (intro conjI impI)
  note rc = album_of_data_cover [OF assms(1)]
  {
    assume t: "truthy cp"
    from py_getitem_get [OF assms(2) t] have "py_getitem data (lit ''cover_photo'') = Inr cp"
      by simp
    with rc assms(2) t show "py_get cp (lit ''uri'') JNull = Inr (a_cover a)"
      by (simp add: resolve_cover_def bind_exn_simps)
  }
  {
    assume f: "\<not> truthy cp"
    with rc assms(2)
    show "a_cover a = (case a_photos a of [] \<Rightarrow> JNull | ph # _ \<Rightarrow> ph_uri ph)"
      by (auto simp: resolve_cover_def bind_exn_simps split: list.splits)
  }
  {
    assume "\<not> truthy cp \<and> py_get data (lit ''photos'') (JArr []) = Inr (JArr (ph0 # rest))"
    then have f: "\<not> truthy cp"
      and ph: "py_get data (lit ''photos'') (JArr []) = Inr (JArr (ph0 # rest))"
      by simp_all
    from album_of_data_photos [OF assms(1)] ph
    have "mapM_exn photo_of (ph0 # rest) = Inr (a_photos a)" by auto
    then have "\<exists>p ps. photo_of ph0 = Inr p \<and> p # ps = a_photos a"
      by (auto split: sum.splits)
    then obtain p ps where p: "photo_of ph0 = Inr p" and ps': "p # ps = a_photos a"
      by blast
    note ps = ps' [symmetric]
    from rc assms(2) f ps have "a_cover a = ph_uri p"
      by (auto simp: resolve_cover_def bind_exn_simps)
    with photo_of_uri [OF p] show "py_get ph0 (lit ''uri'') JNull = Inr (a_cover a)"
      by simp
  }
qed

lemma decode_untitled:
  "decode_facebook_text (JStr (lit ''Untitled Album'')) = Inr (lit ''Untitled Album'')"
  by code_simp

lemma album_of_data_untitled:
  assumes "album_of_data (JObj kvs) = Inr a" and "map_of kvs (lit ''name'') = None"
  shows "a_name a = lit ''Untitled Album''"
  using assms by (auto simp: album_of_data_def bind_exn_Inr_iff decode_untitled)

lemma load_album_file_falsy:
  "\<not> truthy v \<Longrightarrow> load_album_file (Parsed v) albums = load_album_file Unreadable albums"
  by (simp add: load_album_file_def)

lemma py_get_append_other:
  "k \<noteq> k' \<Longrightarrow> py_get (JObj (kvs @ [(k', u)])) k d = py_get (JObj kvs) k d"
  by (simp add: map_add_def split: option.splits)

lemma py_getitem_append_other:
  "k \<noteq> k' \<Longrightarrow> py_getitem (JObj (kvs @ [(k', u)])) k = py_getitem (JObj kvs) k"
  by (simp add: map_add_def split: option.splits)

lemma py_get_append_new:
  "map_of kvs k = None \<Longrightarrow> py_get (JObj (kvs @ [(k, u)])) k d = Inr u"
  by (simp add: map_add_def)

lemma name_differs:
  "lit ''description'' \<noteq> lit ''name''" "lit ''photos'' \<noteq> lit ''name''"
  "lit ''cover_photo'' \<noteq> lit ''name''"
  by (simp_all add: lit_def)

lemma resolve_cover_append_name:
  "resolve_cover (JObj (kvs @ [(lit ''name'', u)])) photos = resolve_cover (JObj kvs) photos"
  by (simp only: resolve_cover_def py_get_append_other [OF name_differs(3)]
        py_getitem_append_other [OF name_differs(3)])

lemma album_of_data_default_name:
  assumes "map_of kvs (lit ''name'') = None"
  shows "album_of_data (JObj kvs)
         = album_of_data (JObj (kvs @ [(lit ''name'', JStr (lit ''Untitled Album''))]))"
proof -
  have "py_get (JObj kvs) (lit ''name'') (JStr (lit ''Untitled Album''))
        = Inr (JStr (lit ''Untitled Album''))"
    using assms by simp
  then show ?thesis
    by (simp only: album_of_data_def py_get_append_new [OF assms]
          py_get_append_other [OF name_differs(1)] py_get_append_other [OF name_differs(2)]
          resolve_cover_append_name)
qed

lemma load_albums_snoc:
  "load_albums (Some (before @ [f])) = bind_exn (load_albums (Some before)) (load_album_file f)"
proof -
  have "foldM_exn load_album_file [f] = load_album_file f"
    by (intro ext) (simp split: sum.splits)
  then show ?thesis
    by (simp only: load_albums_def option.case foldM_exn_append)
qed

lemma load_album_file_object:
  "kvs \<noteq> [] \<Longrightarrow>
   load_album_file (Parsed (JObj kvs)) =
     (\<lambda>albums. bind_exn (album_of_data (JObj kvs)) (\<lambda>album.
        if a_photos album \<noteq> [] then Inr (albums @ [album]) else Inr albums))"
  by (intro ext) (simp add: load_album_file_def)

text \<open>
  Claim C10.  A file whose object has no \<open>name\<close> key is loaded as the same object
  with the name \<open>Untitled Album\<close>: the album built from it is the album built from
  the object with \<open>"name": "Untitled Album"\<close> added, it has that name, and it is
  appended to the albums of the files before it when it has a photo.  A file that
  parses to a false value (\<open>null\<close>, \<open>false\<close>, \<open>0\<close>, an empty string, array or object)
  gives the result of a file that does not parse.
\<close>

theorem load_albums_untitled_and_falsy:
  "(kvs \<noteq> [] \<and> map_of kvs (lit ''name'') = None \<longrightarrow>
      load_albums (Some (before @ [Parsed (JObj kvs)])) =
        bind_exn (load_albums (Some before)) (\<lambda>albums.
        bind_exn (album_of_data (JObj kvs)) (\<lambda>album.
          if a_photos album \<noteq> [] then Inr (albums @ [album]) else Inr albums))
      \<and> album_of_data (JObj kvs) =
          album_of_data (JObj (kvs @ [(lit ''name'', JStr (lit ''Untitled Album''))]))
      \<and> (\<forall>album. album_of_data (JObj kvs) = Inr album \<longrightarrow> a_name album = lit ''Untitled Album''))
   \<and> (\<not> truthy v \<longrightarrow>
        load_albums (Some (before @ Parsed v # after))
          = load_albums (Some (before @ Unreadable # after)))"
proof (intro conjI impI allI)
  assume a: "kvs \<noteq> [] \<and> map_of kvs (lit ''name'') = None"
  then show "load_albums (Some (before @ [Parsed (JObj kvs)])) =
        bind_exn (load_albums (Some before)) (\<lambda>albums.
        bind_exn (album_of_data (JObj kvs)) (\<lambda>album.
          if a_photos album \<noteq> [] then Inr (albums @ [album]) else Inr albums))"
    by (simp add: load_albums_snoc load_album_file_object)
  from a show "album_of_data (JObj kvs) =
          album_of_data (JObj (kvs @ [(lit ''name'', JStr (lit ''Untitled Album''))]))"
    by (simp only: album_of_data_default_name [symmetric])
  fix album
  assume "album_of_data (JObj kvs) = Inr album"
  with a show "a_name album = lit ''Untitled Album''"
    by (simp add: album_of_data_untitled)
next
  assume "\<not> truthy v"
  then have "load_album_file (Parsed v) = load_album_file Unreadable"
    by (intro ext) (rule load_album_file_falsy)
  then have "foldM_exn load_album_file (Parsed v # after)
               = foldM_exn load_album_file (Unreadable # after)"
    by (intro ext) simp
  then show "load_albums (Some (before @ Parsed v # after))
          = load_albums (Some (before @ Unreadable # after))"
    by (simp only: load_albums_def option.case foldM_exn_append)
qed

lemma cover_example_explicit:
  "album_of_data (JObj [(lit ''cover_photo'', JObj [(lit ''uri'', JStr (lit ''c.jpg''))]),
      (lit ''photos'', JArr [JObj [(lit ''uri'', JStr (lit ''p.jpg''))]])]) =
   Inr \<lparr>a_name = lit ''Untitled Album'', a_description = [],
         a_photos = [\<lparr>ph_uri = JStr (lit ''p.jpg''), ph_description = [],
                      ph_timestamp = JInt 0\<rparr>],
         a_cover = JStr (lit ''c.jpg'')\<rparr>"
  by code_simp

lemma cover_example_first_photo:
  "album_of_data (JObj [(lit ''photos'', JArr [JObj [(lit ''uri'', JStr (lit ''p.jpg''))]])]) =
   Inr \<lparr>a_name = lit ''Untitled Album'', a_description = [],
         a_photos = [\<lparr>ph_uri = JStr (lit ''p.jpg''), ph_description = [],
                      ph_timestamp = JInt 0\<rparr>],
         a_cover = JStr (lit ''p.jpg'')\<rparr>"
  by code_simp

theorem album_cover_resolution_witness:
  "py_get (JObj [(lit ''uri'', JStr (lit ''c.jpg''))]) (lit ''uri'') JNull = Inr (JStr (lit ''c.jpg''))
   \<and> py_get (JObj [(lit ''uri'', JStr (lit ''p.jpg''))]) (lit ''uri'') JNull = Inr (JStr (lit ''p.jpg''))"
proof -
  have g1: "py_get (JObj [(lit ''cover_photo'', JObj [(lit ''uri'', JStr (lit ''c.jpg''))]),
      (lit ''photos'', JArr [JObj [(lit ''uri'', JStr (lit ''p.jpg''))]])]) (lit ''cover_photo'') JNull
      = Inr (JObj [(lit ''uri'', JStr (lit ''c.jpg''))])"
    by code_simp
  have g2: "py_get (JObj [(lit ''photos'', JArr [JObj [(lit ''uri'', JStr (lit ''p.jpg''))]])])
      (lit ''cover_photo'') JNull = Inr JNull"
    by code_simp
  have g3: "py_get (JObj [(lit ''photos'', JArr [JObj [(lit ''uri'', JStr (lit ''p.jpg''))]])])
      (lit ''photos'') (JArr []) = Inr (JArr (JObj [(lit ''uri'', JStr (lit ''p.jpg''))] # []))"
    by code_simp
  from album_cover_resolution [OF cover_example_explicit g1]
    album_cover_resolution [OF cover_example_first_photo g2,
      of "JObj [(lit ''uri'', JStr (lit ''p.jpg''))]" "[]"] g3
  show ?thesis by (simp add: lit_simps)
qed

text \<open>
  An album whose \<open>cover_photo\<close> entry is present but empty: the cover is the first
  photo and not the (absent) reference of the entry.
\<close>

theorem cover_photo_present_but_empty:
  "load_albums (Some [Parsed (JObj [(lit ''cover_photo'', JObj []),
      (lit ''photos'', JArr [JObj [(lit ''uri'', JStr (lit ''p.jpg''))]])])]) =
   Inr [\<lparr>a_name = lit ''Untitled Album'', a_description = [],
          a_photos = [\<lparr>ph_uri = JStr (lit ''p.jpg''), ph_description = [],
                       ph_timestamp = JInt 0\<rparr>],
          a_cover = JStr (lit ''p.jpg'')\<rparr>]
   \<and> py_get (JObj []) (lit ''uri'') JNull = Inr JNull"
  by code_simp

lemma album_of_data_untitled_example:
  "album_of_data (JObj [(lit ''photos'', JArr [JObj [(lit ''uri'', JStr (lit ''p.jpg''))]])]) =
   Inr \<lparr>a_name = lit ''Untitled Album'', a_description = [],
         a_photos = [\<lparr>ph_uri = JStr (lit ''p.jpg''), ph_description = [],
                      ph_timestamp = JInt 0\<rparr>],
         a_cover = JStr (lit ''p.jpg'')\<rparr>"
  by code_simp

lemma load_albums_no_file: "load_albums (Some []) = Inr []"
  by (simp add: load_albums_def)

theorem load_albums_untitled_and_falsy_witness:
  "load_albums (Some ([] @ [Parsed (JObj [(lit ''photos'', JArr [JObj [(lit ''uri'', JStr (lit ''p.jpg''))]])])]))
     = Inr ([] @ [\<lparr>a_name = lit ''Untitled Album'', a_description = [],
         a_photos = [\<lparr>ph_uri = JStr (lit ''p.jpg''), ph_description = [],
                      ph_timestamp = JInt 0\<rparr>],
         a_cover = JStr (lit ''p.jpg'')\<rparr>])
   \<and> album_of_data (JObj ([(lit ''photos'', JArr [JObj [(lit ''uri'', JStr (lit ''p.jpg''))]])]
         @ [(lit ''name'', JStr (lit ''Untitled Album''))]))
     = Inr \<lparr>a_name = lit ''Untitled Album'', a_description = [],
         a_photos = [\<lparr>ph_uri = JStr (lit ''p.jpg''), ph_description = [],
                      ph_timestamp = JInt 0\<rparr>],
         a_cover = JStr (lit ''p.jpg'')\<rparr>
   \<and> load_albums (Some ([] @ Parsed (JObj []) # [])) = load_albums (Some ([] @ Unreadable # []))"
proof -
  have n: "map_of [(lit ''photos'', JArr [JObj [(lit ''uri'', JStr (lit ''p.jpg''))]])] (lit ''name'') = None"
    by (simp add: lit_def)
  from n show ?thesis
    using load_albums_untitled_and_falsy [of
      "[(lit ''photos'', JArr [JObj [(lit ''uri'', JStr (lit ''p.jpg''))]])]" "[]" "JObj []" "[]"]
    by (simp add: album_of_data_untitled_example load_albums_no_file bind_exn_simps
          del: append.simps map_of.simps)
qed

section \<open>Properties of the attachment scan\<close>

lemma map_filter_append:
  "List.map_filter f (xs @ ys) = List.map_filter f xs @ List.map_filter f ys"
  by (simp add: List.map_filter_def)

lemma last_last_append: "last (last (e # A) # B) = last (e # A @ B)"
  by (cases B) simp_all

lemma scan_entry_effect:
  assumes "scan_entry d st = Inr st'"
  shows "st' = (fst st @ entry_media d,
                last (snd st # (case entry_url d of None \<Rightarrow> [] | Some u \<Rightarrow> [u])))"
proof (cases d)
  case (JObj kvs)
  with assms show ?thesis
    by (cases "map_of kvs (lit ''media'')"; cases "map_of kvs (lit ''external_context'')")
       (auto simp: scan_entry_def entry_media_def entry_url_def bind_exn_Inr_iff
             split: json.splits if_splits option.splits)
next
  case (JStr s)
  with assms show ?thesis
    by (auto simp: scan_entry_def entry_media_def entry_url_def bind_exn_Inr_iff
             split: if_splits)
next
  case (JArr xs)
  with assms show ?thesis
    by (auto simp: scan_entry_def entry_media_def entry_url_def bind_exn_Inr_iff
             split: if_splits)
qed (use assms in \<open>auto simp: scan_entry_def bind_exn_Inr_iff\<close>)

lemma scan_entries_effect:
  "foldM_exn scan_entry ds st = Inr st' \<Longrightarrow>
     st' = (fst st @ concat (map entry_media ds),
            last (snd st # List.map_filter entry_url ds))"
proof (induction ds arbitrary: st)
  case Nil
  then show ?case by (simp add: List.map_filter_simps)
next
  case (Cons d ds)
  from Cons.prems obtain s1 where s1: "scan_entry d st = Inr s1"
    and rest: "foldM_exn scan_entry ds s1 = Inr st'"
    by (auto split: sum.splits)
  from Cons.IH [OF rest] scan_entry_effect [OF s1] show ?case
    by (cases "entry_url d") (simp_all add: List.map_filter_simps)
qed

lemma scan_attachment_effect:
  assumes "scan_attachment a st = Inr st'"
  shows "st' = (fst st @ concat (map entry_media (attachment_entries a)),
                last (snd st # List.map_filter entry_url (attachment_entries a)))"
proof -
  from assms obtain ds where ds: "bind_exn (py_get a (lit ''data'') (JArr [])) py_iter = Inr ds"
    and f: "foldM_exn scan_entry ds st = Inr st'"
    by (auto simp: scan_attachment_def bind_exn_Inr_iff)
  from ds have "attachment_entries a = ds" by (simp add: attachment_entries_def)
  with scan_entries_effect [OF f] show ?thesis by simp
qed

lemma scan_attachments_effect:
  "foldM_exn scan_attachment atts st = Inr st' \<Longrightarrow>
     st' = (fst st @ concat (map entry_media (concat (map attachment_entries atts))),
            last (snd st # List.map_filter entry_url (concat (map attachment_entries atts))))"
proof (induction atts arbitrary: st)
  case Nil
  then show ?case by (simp add: List.map_filter_simps)
next
  case (Cons a atts)
  from Cons.prems obtain s1 where s1: "scan_attachment a st = Inr s1"
    and rest: "foldM_exn scan_attachment atts s1 = Inr st'"
    by (auto split: sum.splits)
  from Cons.IH [OF rest] scan_attachment_effect [OF s1] show ?case
    by (simp add: map_filter_append last_last_append)
qed

text \<open>
  Claim C6, as amended.  The media of a post are the media references of all data
  entries of all its attachments, in scan order.  The external link is the URL of
  the last \<open>external_context\<close> in scan order (each one overwrites the one before),
  and \<open>None\<close> when there is none.
\<close>

theorem post_of_item_attachments:
  assumes "post_of_item item = Inr p"
  shows "p_media p = concat (map entry_media (item_entries item))
       \<and> p_external_url p = last (JNull # List.map_filter entry_url (item_entries item))"
proof -
  from assms obtain atts st where
    atts: "bind_exn (py_get item (lit ''attachments'') (JArr [])) py_iter = Inr atts"
    and f: "foldM_exn scan_attachment atts ([], JNull) = Inr st"
    and p: "p_media p = fst st" "p_external_url p = snd st"
    by (auto simp: post_of_item_def bind_exn_Inr_iff)
  from atts have "item_entries item = concat (map attachment_entries atts)"
    by (simp add: item_entries_def)
  with scan_attachments_effect [OF f] p show ?thesis by simp
qed


lemma post_of_item_example:
  "post_of_item (JObj [(lit ''timestamp'', JInt 3),
       (lit ''attachments'', JArr [
          JObj [(lit ''data'', JArr [
            JObj [(lit ''external_context'', JObj [(lit ''url'', JStr (lit ''a''))])],
            JObj [(lit ''media'', JObj [(lit ''uri'', JStr (lit ''m.jpg''))])]])],
          JObj [(lit ''data'', JArr [
            JObj [(lit ''external_context'', JObj [(lit ''url'', JStr (lit ''b''))])],
            JObj [(lit ''media'', JObj [(lit ''uri'', JStr (lit ''n.jpg'')),
                                        (lit ''description'', JStr (lit ''d''))])]])]])]) =
   Inr \<lparr>p_timestamp = JInt 3, p_title = [], p_text = [],
         p_media = [\<lparr>m_uri = JStr (lit ''m.jpg''), m_description = []\<rparr>,
                    \<lparr>m_uri = JStr (lit ''n.jpg''), m_description = lit ''d''\<rparr>],
         p_external_url = JStr (lit ''b'')\<rparr>"
  by code_simp

theorem post_of_item_attachments_witness:
  "concat (map entry_media (item_entries (JObj [(lit ''timestamp'', JInt 3),
       (lit ''attachments'', JArr [
          JObj [(lit ''data'', JArr [
            JObj [(lit ''external_context'', JObj [(lit ''url'', JStr (lit ''a''))])],
            JObj [(lit ''media'', JObj [(lit ''uri'', JStr (lit ''m.jpg''))])]])],
          JObj [(lit ''data'', JArr [
            JObj [(lit ''external_context'', JObj [(lit ''url'', JStr (lit ''b''))])],
            JObj [(lit ''media'', JObj [(lit ''uri'', JStr (lit ''n.jpg'')),
                                        (lit ''description'', JStr (lit ''d''))])]])]])])))
     = [\<lparr>m_uri = JStr (lit ''m.jpg''), m_description = []\<rparr>,
        \<lparr>m_uri = JStr (lit ''n.jpg''), m_description = lit ''d''\<rparr>]
   \<and> last (JNull # List.map_filter entry_url (item_entries (JObj [(lit ''timestamp'', JInt 3),
       (lit ''attachments'', JArr [
          JObj [(lit ''data'', JArr [
            JObj [(lit ''external_context'', JObj [(lit ''url'', JStr (lit ''a''))])],
            JObj [(lit ''media'', JObj [(lit ''uri'', JStr (lit ''m.jpg''))])]])],
          JObj [(lit ''data'', JArr [
            JObj [(lit ''external_context'', JObj [(lit ''url'', JStr (lit ''b''))])],
            JObj [(lit ''media'', JObj [(lit ''uri'', JStr (lit ''n.jpg'')),
                                        (lit ''description'', JStr (lit ''d''))])]])]])])))
     = JStr (lit ''b'')"
  using post_of_item_attachments [OF post_of_item_example] by simp

text \<open>
  A post with two links, \<open>a\<close> before \<open>b\<close> in scan order: the link of the post is
  \<open>b\<close>, the last one.
\<close>

theorem external_url_is_last_not_first:
  "load_posts (Parsed (JArr [JObj [(lit ''attachments'', JArr [
          JObj [(lit ''data'', JArr [
            JObj [(lit ''external_context'', JObj [(lit ''url'', JStr (lit ''a''))])]])],
          JObj [(lit ''data'', JArr [
            JObj [(lit ''external_context'', JObj [(lit ''url'', JStr (lit ''b''))])]])]])]])) =
   Inr [\<lparr>p_timestamp = JInt 0, p_title = [], p_text = [], p_media = [],
          p_external_url = JStr (lit ''b'')\<rparr>]
   \<and> List.map_filter entry_url (item_entries (JObj [(lit ''attachments'', JArr [
          JObj [(lit ''data'', JArr [
            JObj [(lit ''external_context'', JObj [(lit ''url'', JStr (lit ''a''))])]])],
          JObj [(lit ''data'', JArr [
            JObj [(lit ''external_context'', JObj [(lit ''url'', JStr (lit ''b''))])]])]])]))
     = [JStr (lit ''a''), JStr (lit ''b'')]"
  by code_simp

section \<open>Properties of the media paths\<close>


lemma split_on_not_Nil: "split_on sep s \<noteq> []"
  by (induction s) (auto split: list.splits)

lemma split_on_no_sep: "\<forall>w \<in> set (split_on sep s). sep \<notin> set w"
proof (induction s)
  case Nil
  show ?case by simp
next
  case (Cons c s)
  with split_on_not_Nil [of sep s] show ?case
    by (cases "split_on sep s") auto
qed

lemma path_name_no_slash: "47 \<notin> set (path_name s)"
proof -
  have "path_name s = [] \<or> path_name s \<in> set (split_on 47 s)"
  proof (cases "rev (filter (\<lambda>x. x \<noteq> [] \<and> x \<noteq> lit ''.'') (split_on 47 s))")
    case Nil
    then show ?thesis by (simp add: path_name_def)
  next
    case (Cons x xs)
    then have "x \<in> set (rev (filter (\<lambda>x. x \<noteq> [] \<and> x \<noteq> lit ''.'') (split_on 47 s)))"
      by simp
    then have "x \<in> set (split_on 47 s)" by simp
    with Cons show ?thesis by (simp add: path_name_def)
  qed
  with split_on_no_sep [of 47 s] show ?thesis by auto
qed

lemma get_media_path_falsy: "\<not> truthy uri \<Longrightarrow> get_media_path uri = Inr None"
  by (simp add: get_media_path_def)

lemma get_media_path_str:
  "s \<noteq> [] \<Longrightarrow> get_media_path (JStr s) = Inr (Some (lit ''media/'' @ path_name s))"
  by (simp add: get_media_path_def)

text \<open>
  Claim C8, as amended.  For an absent or empty reference (any false value) the
  resolver returns \<open>None\<close>.  For a non-empty string it returns \<open>media/\<close> followed by
  the last component of the path, which has no slash and may be empty.  The post
  renderer adds no media element for a media reference whose \<open>uri\<close> is absent or
  empty, and adds one for every other string.
\<close>

theorem media_path_resolution:
  "(\<not> truthy uri \<longrightarrow> get_media_path uri = Inr None)
   \<and> (s \<noteq> [] \<longrightarrow> get_media_path (JStr s) = Inr (Some (lit ''media/'' @ path_name s))
                    \<and> 47 \<notin> set (path_name s))
   \<and> (\<not> truthy (m_uri m) \<longrightarrow> add_media_html m media_html = Inr media_html)
   \<and> (s \<noteq> [] \<and> m_uri m = JStr s \<longrightarrow>
        add_media_html m media_html =
          Inr (media_html @ media_element (lit ''media/'' @ path_name s)
                                          (escape (m_description m))))"
  by (simp add: get_media_path_falsy get_media_path_str path_name_no_slash
        add_media_html_def bind_exn_simps lit_simps)


lemma path_name_example: "path_name (lit ''posts/media/12_n.jpg'') = lit ''12_n.jpg''"
  by code_simp

theorem media_path_resolution_witness:
  "get_media_path JNull = Inr None
   \<and> get_media_path (JStr (lit ''posts/media/12_n.jpg'')) = Inr (Some (lit ''media/12_n.jpg''))
   \<and> add_media_html \<lparr>m_uri = JNull, m_description = lit ''x''\<rparr> (lit ''h'') = Inr (lit ''h'')
   \<and> add_media_html \<lparr>m_uri = JStr (lit ''posts/media/12_n.jpg''), m_description = lit ''x''\<rparr> (lit ''h'')
       = Inr (lit ''h'' @ media_element (lit ''media/12_n.jpg'') (lit ''x''))"
  using media_path_resolution [of JNull "lit ''posts/media/12_n.jpg''"
      "\<lparr>m_uri = JNull, m_description = lit ''x''\<rparr>" "lit ''h''"]
    media_path_resolution [of JNull "lit ''posts/media/12_n.jpg''"
      "\<lparr>m_uri = JStr (lit ''posts/media/12_n.jpg''), m_description = lit ''x''\<rparr>" "lit ''h''"]
    path_name_example
  by (simp add: lit_simps escape_step escape_Nil)

text \<open>
  The empty string is a reference for which the resolver returns \<open>None\<close>; and the
  reference \<open>/\<close>, which has no file name, is rendered, with the source \<open>media/\<close>.
\<close>

theorem media_path_empty_and_root:
  "get_media_path (JStr []) = Inr None
   \<and> path_name (lit ''/'') = []
   \<and> post_media_html \<lparr>p_timestamp = JInt 0, p_title = [], p_text = [],
        p_media = [\<lparr>m_uri = JStr (lit ''/''), m_description = []\<rparr>],
        p_external_url = JNull\<rparr> = Inr (media_element (lit ''media/'') [])"
  by code_simp

section \<open>Properties of copy_media_files\<close>


lemma ends_with_iff: "ends_with s e \<longleftrightarrow> (\<exists>pre. s = pre @ e)"
proof
  assume "ends_with s e"
  then have "s = take (length s - length e) s @ e"
    by (metis append_take_drop_id ends_with_def)
  then show "\<exists>pre. s = pre @ e" by blast
next
  assume "\<exists>pre. s = pre @ e"
  then show "ends_with s e" by (auto simp: ends_with_def)
qed

lemma is_media_file_iff:
  "is_media_file file \<longleftrightarrow>
     (\<exists>pre e. file = pre @ e \<and>
        e \<in> {lit ''.jpg'', lit ''.jpeg'', lit ''.png'', lit ''.gif'', lit ''.mp4'', lit ''.webp''})"
  by (auto simp: is_media_file_def media_extensions_def ends_with_iff)

lemma copy_files_keeps:
  "out f \<noteq> None \<Longrightarrow> fst (copy_files files (out, copied)) f = out f"
  by (induction files arbitrary: out copied) auto

lemma copy_files_covers:
  "(f, c) \<in> set files \<Longrightarrow> is_media_file f \<Longrightarrow> fst (copy_files files (out, copied)) f \<noteq> None"
proof (induction files arbitrary: out copied)
  case Nil
  then show ?case by simp
next
  case (Cons x files)
  obtain g d where x: "x = (g, d)" by (cases x)
  show ?case
  proof (cases "(f, c) = x")
    case True
    with x Cons.prems(2) show ?thesis
      using copy_files_keeps [of "out(f \<mapsto> c)" f files "copied @ [f]"]
        copy_files_keeps [of out f files copied]
      by (cases "out f") auto
  next
    case False
    with Cons.prems have "(f, c) \<in> set files" by simp
    from Cons.IH [OF this Cons.prems(2)] x show ?thesis by simp
  qed
qed

lemma copy_files_noop:
  "\<forall>(f, c) \<in> set files. is_media_file f \<longrightarrow> out f \<noteq> None
   \<Longrightarrow> copy_files files (out, copied) = (out, copied)"
  by (induction files arbitrary: out copied) auto

lemma copy_files_log:
  "\<exists>new. snd (copy_files files (out, copied)) = copied @ new
     \<and> (\<forall>f \<in> set new. is_media_file f \<and> out f = None
            \<and> (\<exists>c. (f, c) \<in> set files \<and> fst (copy_files files (out, copied)) f = Some c))
     \<and> dom (fst (copy_files files (out, copied))) = dom out \<union> set new"
proof (induction files arbitrary: out copied)
  case Nil
  show ?case by simp
next
  case (Cons x files)
  obtain g d where x: "x = (g, d)" by (cases x)
  show ?case
  proof (cases "is_media_file g \<and> out g = None")
    case True
    let ?r = "copy_files files (out(g \<mapsto> d), copied @ [g])"
    from Cons.IH [of "out(g \<mapsto> d)" "copied @ [g]"] obtain new where
      n: "snd ?r = (copied @ [g]) @ new"
      "\<forall>f \<in> set new. is_media_file f \<and> (out(g \<mapsto> d)) f = None
          \<and> (\<exists>c. (f, c) \<in> set files \<and> fst ?r f = Some c)"
      "dom (fst ?r) = dom (out(g \<mapsto> d)) \<union> set new"
      by blast
    have r: "copy_files (x # files) (out, copied) = ?r"
      using True x by simp
    have g: "fst ?r g = Some d"
      using copy_files_keeps [of "out(g \<mapsto> d)" g files "copied @ [g]"] by simp
    from n(2) have n2: "\<forall>f \<in> set new. is_media_file f \<and> out f = None
          \<and> (\<exists>c. (f, c) \<in> set (x # files) \<and> fst ?r f = Some c)"
      by (auto split: if_splits)
    have "snd ?r = copied @ (g # new)" using n(1) by simp
    moreover have "\<forall>f \<in> set (g # new). is_media_file f \<and> out f = None
          \<and> (\<exists>c. (f, c) \<in> set (x # files) \<and> fst ?r f = Some c)"
      using n2 True g x by auto
    moreover have "dom (fst ?r) = dom out \<union> set (g # new)"
      using n(3) by auto
    ultimately show ?thesis unfolding r by blast
  next
    case False
    let ?r = "copy_files files (out, copied)"
    from Cons.IH [of out copied] obtain new where
      n: "snd ?r = copied @ new"
      "\<forall>f \<in> set new. is_media_file f \<and> out f = None
          \<and> (\<exists>c. (f, c) \<in> set files \<and> fst ?r f = Some c)"
      "dom (fst ?r) = dom out \<union> set new"
      by blast
    have r: "copy_files (x # files) (out, copied) = ?r"
      using False x by auto
    from n(2) have "\<forall>f \<in> set new. is_media_file f \<and> out f = None
          \<and> (\<exists>c. (f, c) \<in> set (x # files) \<and> fst ?r f = Some c)"
      by auto
    with n(1) n(3) show ?thesis unfolding r by blast
  qed
qed

text \<open>The same facts for the walk over the directories.\<close>

lemma copy_walk_keeps:
  "fst st f \<noteq> None \<Longrightarrow> fst (copy_walk walk st) f = fst st f"
proof (induction walk arbitrary: st)
  case Nil
  show ?case by simp
next
  case (Cons d walk)
  obtain root files where d: "d = (root, files)" by (cases d)
  have k: "fst (copy_files files st) f = fst st f"
    using copy_files_keeps [of "fst st" f files "snd st"] Cons.prems by simp
  with Cons.prems have "fst (copy_files files st) f \<noteq> None" by simp
  from Cons.IH [OF this] k d show ?case by simp
qed

lemma copy_walk_covers:
  assumes "(root, files) \<in> set walk" and "(f, c) \<in> set files" and "is_media_file f"
  shows "fst (copy_walk walk st) f \<noteq> None"
  using assms(1)
proof (induction walk arbitrary: st)
  case Nil
  then show ?case by simp
next
  case (Cons d walk)
  obtain root' files' where d: "d = (root', files')" by (cases d)
  show ?case
  proof (cases "(root, files) = d")
    case True
    with d have "fst (copy_files files' st) f \<noteq> None"
      using copy_files_covers [OF assms(2) assms(3), of "fst st" "snd st"] by simp
    with copy_walk_keeps [of "copy_files files' st" f walk] d show ?thesis by simp
  next
    case False
    with Cons.prems have "(root, files) \<in> set walk" by simp
    from Cons.IH [OF this] d show ?thesis by simp
  qed
qed

lemma copy_walk_noop:
  "\<forall>(root, files) \<in> set walk. \<forall>(f, c) \<in> set files. is_media_file f \<longrightarrow> fst st f \<noteq> None
   \<Longrightarrow> copy_walk walk st = st"
proof (induction walk arbitrary: st)
  case Nil
  show ?case by simp
next
  case (Cons d walk)
  obtain root files where d: "d = (root, files)" by (cases d)
  from Cons.prems d
  have "\<forall>(f, c) \<in> set files. is_media_file f \<longrightarrow> fst st f \<noteq> None" by auto
  from copy_files_noop [OF this, of "snd st"] have "copy_files files st = st" by simp
  with Cons d show ?case by simp
qed

lemma copy_walk_log:
  "\<exists>new. snd (copy_walk walk st) = snd st @ new
     \<and> (\<forall>f \<in> set new. is_media_file f \<and> fst st f = None
            \<and> (\<exists>root files c. (root, files) \<in> set walk \<and> (f, c) \<in> set files
                  \<and> fst (copy_walk walk st) f = Some c))
     \<and> dom (fst (copy_walk walk st)) = dom (fst st) \<union> set new"
proof (induction walk arbitrary: st)
  case Nil
  show ?case by simp
next
  case (Cons d walk)
  obtain root files where d: "d = (root, files)" by (cases d)
  let ?s1 = "copy_files files st"
  let ?r = "copy_walk walk ?s1"
  have r: "copy_walk (d # walk) st = ?r" using d by simp
  from copy_files_log [of files "fst st" "snd st"] obtain n1 where
    a: "snd ?s1 = snd st @ n1"
    "\<forall>f \<in> set n1. is_media_file f \<and> fst st f = None
          \<and> (\<exists>c. (f, c) \<in> set files \<and> fst ?s1 f = Some c)"
    "dom (fst ?s1) = dom (fst st) \<union> set n1"
    by auto
  from Cons.IH [of ?s1] obtain n2 where
    b: "snd ?r = snd ?s1 @ n2"
    "\<forall>f \<in> set n2. is_media_file f \<and> fst ?s1 f = None
          \<and> (\<exists>root files c. (root, files) \<in> set walk \<and> (f, c) \<in> set files
                  \<and> fst ?r f = Some c)"
    "dom (fst ?r) = dom (fst ?s1) \<union> set n2"
    by blast
  have 1: "snd ?r = snd st @ (n1 @ n2)" using a(1) b(1) by simp
  have 2: "\<forall>f \<in> set (n1 @ n2). is_media_file f \<and> fst st f = None
            \<and> (\<exists>root files c. (root, files) \<in> set (d # walk) \<and> (f, c) \<in> set files
                  \<and> fst ?r f = Some c)"
  proof
    fix f assume "f \<in> set (n1 @ n2)"
    then consider "f \<in> set n1" | "f \<in> set n2" by auto
    then show "is_media_file f \<and> fst st f = None
            \<and> (\<exists>root files c. (root, files) \<in> set (d # walk) \<and> (f, c) \<in> set files
                  \<and> fst ?r f = Some c)"
    proof cases
      case 1
      with a(2) obtain c where c: "is_media_file f" "fst st f = None" "(f, c) \<in> set files"
        "fst ?s1 f = Some c" by blast
      from copy_walk_keeps [of ?s1 f walk] c(4) have "fst ?r f = Some c" by simp
      with c d show ?thesis by auto
    next
      case 2
      with b(2) obtain root' files' c where c: "is_media_file f" "fst ?s1 f = None"
        "(root', files') \<in> set walk" "(f, c) \<in> set files'" "fst ?r f = Some c" by blast
      from c(2) have "f \<notin> dom (fst ?s1)" by (simp add: domIff)
      with a(3) have "f \<notin> dom (fst st)" by blast
      then have "fst st f = None" by (simp add: domIff)
      with c show ?thesis by auto
    qed
  qed
  have 3: "dom (fst ?r) = dom (fst st) \<union> set (n1 @ n2)" using a(3) b(3) by auto
  from 1 2 3 show ?case unfolding r by blast
qed


text \<open>
  Claim C9.  Every file the operation copies has a name that ends in one of the six
  extensions, was not in the output directory before, and is there afterwards
  under its bare name with the content of a source file of that name.  The files
  that were in the output directory stay as they were.  A second run over the same
  source tree copies nothing and changes nothing.
\<close>

theorem copy_media_files_idempotent:
  assumes "copy_media_files media_source out = (out', copied)"
  shows "(\<forall>file \<in> set copied. is_media_file file \<and> out file = None
            \<and> (\<exists>walk root files c. media_source = Some walk \<and> (root, files) \<in> set walk
                  \<and> (file, c) \<in> set files \<and> out' file = Some c))
       \<and> dom out' = dom out \<union> set copied
       \<and> (\<forall>file. out file \<noteq> None \<longrightarrow> out' file = out file)
       \<and> copy_media_files media_source out' = (out', [])"
proof (cases media_source)
  case None
  with assms show ?thesis by (auto simp: copy_media_files_def)
next
  case (Some walk)
  with assms have r: "copy_walk walk (out, []) = (out', copied)"
    by (simp add: copy_media_files_def)
  from copy_walk_log [of walk "(out, [])"] r
  have 1: "\<forall>file \<in> set copied. is_media_file file \<and> out file = None
            \<and> (\<exists>root files c. (root, files) \<in> set walk
                  \<and> (file, c) \<in> set files \<and> out' file = Some c)"
    and 2: "dom out' = dom out \<union> set copied"
    by auto
  have 3: "\<forall>file. out file \<noteq> None \<longrightarrow> out' file = out file"
    using copy_walk_keeps [of "(out, [])" _ walk] r by auto
  have "\<forall>(root, files) \<in> set walk. \<forall>(f, c) \<in> set files.
          is_media_file f \<longrightarrow> fst (out', []) f \<noteq> None"
    using copy_walk_covers [of _ _ walk _ _ "(out, [])"] r by auto
  from copy_walk_noop [OF this] have 4: "copy_media_files media_source out' = (out', [])"
    using Some by (simp add: copy_media_files_def)
  from 1 2 3 4 Some show ?thesis by auto
qed

lemma copy_media_files_example:
  "copy_media_files
     (Some [(lit ''m'', [(lit ''a.jpg'', 11::nat), (lit ''n.txt'', 12), (lit ''B.JPG'', 13)]),
            (lit ''m/s'', [(lit ''a.jpg'', 14), (lit ''c.webp'', 15), (lit ''d.mp4'', 16)])])
     (Map.empty(lit ''d.mp4'' \<mapsto> 19))
   = ((Map.empty(lit ''d.mp4'' \<mapsto> 19))(lit ''a.jpg'' \<mapsto> 11, lit ''c.webp'' \<mapsto> 15),
      [lit ''a.jpg'', lit ''c.webp''])"
  by (simp add: copy_media_files_def is_media_file_def media_extensions_def ends_with_def
        lit_simps)

theorem copy_media_files_idempotent_witness:
  "is_media_file (lit ''a.jpg'') \<and> is_media_file (lit ''c.webp'')
   \<and> copy_media_files
     (Some [(lit ''m'', [(lit ''a.jpg'', 11::nat), (lit ''n.txt'', 12), (lit ''B.JPG'', 13)]),
            (lit ''m/s'', [(lit ''a.jpg'', 14), (lit ''c.webp'', 15), (lit ''d.mp4'', 16)])])
     ((Map.empty(lit ''d.mp4'' \<mapsto> 19))(lit ''a.jpg'' \<mapsto> 11, lit ''c.webp'' \<mapsto> 15))
     = ((Map.empty(lit ''d.mp4'' \<mapsto> 19))(lit ''a.jpg'' \<mapsto> 11, lit ''c.webp'' \<mapsto> 15), [])"
  using copy_media_files_idempotent [OF copy_media_files_example]
  by simp

section \<open>Properties of linkify\<close>





















lemma lit_append: "lit (a @ b) = lit a @ lit b"
  by (simp add: lit_def)








end
